theory Spec2Isabelle
  imports Main
begin

section \<open>Common result types\<close>

text \<open>
  The exceptions that the modelled code of \<^verbatim>\<open>backgroundthread.py\<close> can raise.
  \<open>Full\<close> and \<open>Empty\<close> are \<^verbatim>\<open>Queue.Full\<close> and \<^verbatim>\<open>Queue.Empty\<close>.
\<close>

datatype error = Full | Empty | ValueError | RuntimeError | TypeError | AttributeError | IndexError

text \<open>
  A call either returns, raises, or waits on a condition variable. Every operation of the
  queues runs under the queue's mutex, so a call is one atomic step on the state; a call that
  would wait is the outcome \<open>Blocked\<close>, and leaves the state as it found it (the waits
  of the source test their condition again after every wake-up and change nothing before
  the test succeeds). A wait with a positive timeout is \<open>Blocked\<close> as well: it ends in the
  exception of its loop when the deadline passes first. Which waiting thread a \<^verbatim>\<open>notify\<close>
  wakes, and when, is the scheduler's matter and not part of the state.
\<close>

datatype 'r outcome = Returned 'r | Raised error | Blocked

section \<open>Sections and items\<close>

text \<open>
  The class \<^verbatim>\<open>Section\<close> lives in \<^verbatim>\<open>library_sync/sections.py\<close>; the queue reads
  three attributes of it and compares sections with \<^verbatim>\<open>==\<close>. \<open>plex_type\<close> is \<open>None\<close> for
  the empty \<^verbatim>\<open>Section()\<close>.
\<close>

record Section =
  section_id :: nat
  plex_type :: "string option"
  number_of_items :: int
  failed_items :: int

text \<open>
  Modelled from the spec: \<^verbatim>\<open>Section.__eq__\<close> is not part of the sources at hand; the
  spec says an item is "matched by the section identity stored at enqueue time", so two
  sections compare equal when they carry the same identity.
\<close>

definition section_eq :: "Section \<Rightarrow> Section \<Rightarrow> bool" where
  "section_eq a b \<longleftrightarrow> section_id a = section_id b"

text \<open>
  Modelled from the spec: the constant \<^verbatim>\<open>v.PLEX_TYPE_ALBUM\<close> of \<^verbatim>\<open>variables.py\<close>,
  the type of the sections that need ordered delivery.
\<close>

definition PLEX_TYPE_ALBUM :: string where
  "PLEX_TYPE_ALBUM = ''album''"

text \<open>
  The payload of an item is a dict with the key \<^verbatim>\<open>'section'\<close>; what else it holds is
  opaque to the queue. An item is the tuple \<^verbatim>\<open>(count, payload)\<close>; the sentinel is
  \<^verbatim>\<open>(None, None)\<close>.
\<close>

record 'a payload =
  psection :: Section
  body :: 'a

type_synonym 'a item = "int option \<times> 'a payload option"

section \<open>Sub-queues: \<^verbatim>\<open>Queue.Queue\<close> and \<^verbatim>\<open>OrderedQueue\<close>\<close>

text \<open>
  \<open>Fifo\<close> is a plain \<^verbatim>\<open>Queue.Queue()\<close>, whose \<^verbatim>\<open>queue\<close> is a deque. \<open>Ordered n h\<close> is an
  \<^verbatim>\<open>OrderedQueue\<close> with \<^verbatim>\<open>next_index = n\<close> and heap \<open>h\<close>.

  \<^verbatim>\<open>heapq\<close> is Python's library; it is modelled by its contract: the list is kept in
  ascending order of the tuples' first component, \<^verbatim>\<open>queue[0]\<close> is the head and
  \<^verbatim>\<open>heappop\<close> removes it. Python 2 orders \<open>None\<close> below every number. Tuples with
  equal first components are compared on their payloads by Python; here they stay in arrival
  order.
\<close>

datatype 'a subqueue = Fifo "'a item list" | Ordered int "'a item list"

fun index_lt :: "int option \<Rightarrow> int option \<Rightarrow> bool" where
  "index_lt None None = False"
| "index_lt None (Some j) = True"
| "index_lt (Some i) None = False"
| "index_lt (Some i) (Some j) = (i < j)"

fun heappush :: "'a item list \<Rightarrow> 'a item \<Rightarrow> 'a item list" where
  "heappush [] x = [x]"
| "heappush (y # ys) x = (if index_lt (fst x) (fst y) then x # y # ys else y # heappush ys x)"

text \<open>\<^verbatim>\<open>Queue._put\<close> appends to the deque; \<^verbatim>\<open>OrderedQueue._put\<close> pushes on the heap (its
  \<^verbatim>\<open>notify\<close> wakes the consumer, which then re-tests its condition).\<close>

fun subqueue_put :: "'a subqueue \<Rightarrow> 'a item \<Rightarrow> 'a subqueue" where
  "subqueue_put (Fifo xs) x = Fifo (xs @ [x])"
| "subqueue_put (Ordered n h) x = Ordered n (heappush h x)"

text \<open>\<^verbatim>\<open>Queue._get\<close> is \<^verbatim>\<open>popleft\<close>. \<^verbatim>\<open>OrderedQueue._get\<close> waits while
  \<^verbatim>\<open>self.queue[0][0] != self.next_index\<close>, then increments \<^verbatim>\<open>next_index\<close> and pops.\<close>

fun subqueue_get :: "'a subqueue \<Rightarrow> ('a item \<times> 'a subqueue) outcome" where
  "subqueue_get (Fifo []) = Raised IndexError"
| "subqueue_get (Fifo (x # xs)) = Returned (x, Fifo xs)"
| "subqueue_get (Ordered n []) = Raised IndexError"
| "subqueue_get (Ordered n (x # xs)) =
     (if fst x \<noteq> Some n then Blocked else Returned (x, Ordered (n + 1) xs))"

fun subqueue_qsize :: "'a subqueue \<Rightarrow> int" where
  "subqueue_qsize (Fifo xs) = int (length xs)"
| "subqueue_qsize (Ordered n h) = int (length h)"

section \<open>\<^verbatim>\<open>ProcessingQueue\<close>\<close>

text \<open>
  The sub-queues are objects: \<^verbatim>\<open>_current_queue\<close> and an entry of \<^verbatim>\<open>_queues\<close> may be the
  same object, and a put through the one is seen through the other. So the sub-queues live
  in a store, and \<open>queues\<close> and \<open>current_queue\<close> hold references into it; \<open>next_ref\<close> is
  the next free reference. A function whose name starts with \<open>u_\<close> is the method of the
  source whose name starts with an underscore.
\<close>

record 'a ProcessingQueue =
  maxsize :: int
  unfinished_tasks :: int
  store :: "nat \<Rightarrow> 'a subqueue"
  next_ref :: nat
  sections :: "Section list"
  queues :: "nat list"
  current_section :: "Section option"
  current_queue :: "nat option"
  counter :: int

definition u_init :: "int \<Rightarrow> 'a ProcessingQueue" where
  "u_init m = \<lparr> maxsize = m, unfinished_tasks = 0, store = (\<lambda>_. Fifo []), next_ref = 0,
      sections = [], queues = [], current_section = None, current_queue = None,
      counter = 0 \<rparr>"

definition u_qsize :: "'a ProcessingQueue \<Rightarrow> int" where
  "u_qsize s = (case current_queue s of None \<Rightarrow> 0 | Some a \<Rightarrow> subqueue_qsize (store s a))"

definition total_size :: "'a ProcessingQueue \<Rightarrow> int" where
  "total_size s = sum_list (map (\<lambda>a. subqueue_qsize (store s a)) (queues s))"

definition u_switch_queues :: "'a ProcessingQueue \<Rightarrow> 'a ProcessingQueue" where
  "u_switch_queues s =
     s\<lparr> current_section := (case sections s of [] \<Rightarrow> None | x # _ \<Rightarrow> Some x),
        current_queue := (case queues s of [] \<Rightarrow> None | a # _ \<Rightarrow> Some a) \<rparr>"

definition u_add_section :: "Section \<Rightarrow> 'a ProcessingQueue \<Rightarrow> 'a ProcessingQueue" where
  "u_add_section sec s =
     (let a = next_ref s;
          s1 = s\<lparr> sections := sections s @ [sec],
                  queues := queues s @ [a],
                  store := (store s)(a := (if plex_type sec = Some PLEX_TYPE_ALBUM
                                           then Ordered 0 [] else Fifo [])),
                  next_ref := Suc a \<rparr>
      in if current_section s1 = None then u_switch_queues s1 else s1)"

definition add_section :: "Section \<Rightarrow> 'a ProcessingQueue \<Rightarrow> 'a ProcessingQueue" where
  "add_section sec s = u_add_section sec s"

text \<open>\<^verbatim>\<open>popleft\<close> on an empty deque raises \<^verbatim>\<open>IndexError\<close>.\<close>

definition u_init_next_section :: "'a ProcessingQueue \<Rightarrow> error + 'a ProcessingQueue" where
  "u_init_next_section s =
     (if sections s = [] \<or> queues s = [] then Inl IndexError
      else Inr (u_switch_queues
                  (s\<lparr> sections := tl (sections s), queues := tl (queues s), counter := 0 \<rparr>)))"

text \<open>The \<^verbatim>\<open>for ... else\<close> loop of \<^verbatim>\<open>_put\<close>: the position of the first registered section
  that compares equal to the item's section.\<close>

fun find_section :: "Section \<Rightarrow> Section list \<Rightarrow> nat option" where
  "find_section x [] = None"
| "find_section x (sec # secs) =
     (if section_eq x sec then Some 0
      else (case find_section x secs of None \<Rightarrow> None | Some i \<Rightarrow> Some (Suc i)))"

text \<open>
  \<^verbatim>\<open>_put\<close>. The loop reads \<^verbatim>\<open>item[1]['section']\<close> once for every registered section that it
  tries, which raises \<^verbatim>\<open>TypeError\<close> on the payload \<open>None\<close>; with no section registered the
  loop has no round and its \<^verbatim>\<open>else\<close> raises at once. \<^verbatim>\<open>self._queues[i]\<close> raises
  \<^verbatim>\<open>IndexError\<close> past the end of the deque.
\<close>

definition u_put :: "'a item \<Rightarrow> 'a ProcessingQueue \<Rightarrow> error + (nat \<times> 'a ProcessingQueue)" where
  "u_put item s =
     (if sections s = [] then Inl RuntimeError
      else (case snd item of
          None \<Rightarrow> Inl TypeError
        | Some p \<Rightarrow>
            (case find_section (psection p) (sections s) of
               None \<Rightarrow> Inl RuntimeError
             | Some i \<Rightarrow>
                 if i < length (queues s)
                 then (let a = queues s ! i
                       in Inr (i, s\<lparr> store := (store s)(a := subqueue_put (store s a) item) \<rparr>))
                 else Inl IndexError)))"

text \<open>
  \<^verbatim>\<open>put(item, block, timeout)\<close>. Of a timeout only its sign matters here: a negative one is
  refused, with the timeout 0 the deadline has passed at the first test, a positive one
  waits.
\<close>

definition put :: "'a item \<Rightarrow> bool \<Rightarrow> int option \<Rightarrow> 'a ProcessingQueue \<Rightarrow> 'a ProcessingQueue outcome" where
  "put item block timeout s =
     (let enqueue = (case u_put item s of
                       Inl e \<Rightarrow> Raised e
                     | Inr (i, s') \<Rightarrow> Returned (s'\<lparr> unfinished_tasks := unfinished_tasks s' + 1 \<rparr>))
      in if maxsize s > 0 then
           (if \<not> block then
              (if u_qsize s = maxsize s then Raised Full else enqueue)
            else (case timeout of
                None \<Rightarrow> (if u_qsize s = maxsize s then Blocked else enqueue)
              | Some t \<Rightarrow>
                  if t < 0 then Raised ValueError
                  else if u_qsize s = maxsize s then (if t = 0 then Raised Full else Blocked)
                  else enqueue))
         else enqueue)"

text \<open>\<^verbatim>\<open>self._queues[-1]\<close> is the queue that \<^verbatim>\<open>_add_section\<close> has just appended.\<close>

definition put_sentinel :: "Section \<Rightarrow> 'a ProcessingQueue \<Rightarrow> 'a ProcessingQueue" where
  "put_sentinel sec s =
     (let s1 = u_add_section (sec\<lparr> number_of_items := 1, failed_items := 0 \<rparr>) s;
          a = last (queues s1);
          s2 = s1\<lparr> store := (store s1)(a := subqueue_put (store s1 a) (None, None)) \<rparr>
      in s2\<lparr> unfinished_tasks := unfinished_tasks s2 + 1 \<rparr>)"

text \<open>
  \<^verbatim>\<open>_get\<close>. An attribute read on \<open>None\<close> raises \<^verbatim>\<open>AttributeError\<close>; \<^verbatim>\<open>get\<close> calls
  \<^verbatim>\<open>_get\<close> only when \<^verbatim>\<open>_qsize()\<close> is not 0, that is with a current queue.
\<close>

definition u_get :: "'a ProcessingQueue \<Rightarrow> ('a payload option \<times> 'a ProcessingQueue) outcome" where
  "u_get s =
     (case current_queue s of
        None \<Rightarrow> Raised AttributeError
      | Some a \<Rightarrow>
          (case subqueue_get (store s a) of
             Blocked \<Rightarrow> Blocked
           | Raised e \<Rightarrow> Raised e
           | Returned (item, q') \<Rightarrow>
               (let s1 = s\<lparr> store := (store s)(a := q'), counter := counter s + 1 \<rparr>
                in case current_section s1 of
                     None \<Rightarrow> Raised AttributeError
                   | Some sec \<Rightarrow>
                       if counter s1 = number_of_items sec - failed_items sec
                       then (case u_init_next_section s1 of
                               Inl e \<Rightarrow> Raised e
                             | Inr s2 \<Rightarrow> Returned (snd item, s2))
                       else Returned (snd item, s1))))"

definition get :: "bool \<Rightarrow> int option \<Rightarrow> 'a ProcessingQueue \<Rightarrow> ('a payload option \<times> 'a ProcessingQueue) outcome" where
  "get block timeout s =
     (if \<not> block then
        (if u_qsize s = 0 then Raised Empty else u_get s)
      else (case timeout of
          None \<Rightarrow> (if u_qsize s = 0 then Blocked else u_get s)
        | Some t \<Rightarrow>
            if t < 0 then Raised ValueError
            else if u_qsize s = 0 then (if t = 0 then Raised Empty else Blocked)
            else u_get s))"

section \<open>Histories of calls on a \<^verbatim>\<open>ProcessingQueue\<close>\<close>

text \<open>
  The calls that producers and the consumer make on the queue, in the order in which they
  take the mutex. A call that raises or waits leaves the state unchanged; a caller that
  waits makes its call again later in the history.
\<close>

datatype 'a op =
    Put "'a item" bool "int option"
  | Get bool "int option"
  | AddSection Section
  | PutSentinel Section

text \<open>
  What a successful \<^verbatim>\<open>get\<close> in state \<open>s\<close> takes out: the sub-queue it is popped from
  (its reference), the section that is current, and the whole tuple that
  \<^verbatim>\<open>self._current_queue._get()\<close> hands to \<^verbatim>\<open>_get\<close>.
\<close>

type_synonym 'a event = "nat \<times> Section \<times> 'a item"

definition front_item :: "'a ProcessingQueue \<Rightarrow> 'a event option" where
  "front_item s =
     (case current_queue s of
        None \<Rightarrow> None
      | Some a \<Rightarrow>
          (case current_section s of
             None \<Rightarrow> None
           | Some sec \<Rightarrow>
               (case subqueue_get (store s a) of
                  Returned (item, q') \<Rightarrow> Some (a, sec, item)
                | _ \<Rightarrow> None)))"

fun step :: "'a op \<Rightarrow> 'a ProcessingQueue \<Rightarrow> 'a event list \<times> 'a ProcessingQueue" where
  "step (Put item block timeout) s =
     (case put item block timeout s of Returned s' \<Rightarrow> ([], s') | _ \<Rightarrow> ([], s))"
| "step (Get block timeout) s =
     (case get block timeout s of
        Returned (p, s') \<Rightarrow> ((case front_item s of None \<Rightarrow> [] | Some e \<Rightarrow> [e]), s')
      | _ \<Rightarrow> ([], s))"
| "step (AddSection sec) s = ([], add_section sec s)"
| "step (PutSentinel sec) s = ([], put_sentinel sec s)"

fun exec :: "'a op list \<Rightarrow> 'a ProcessingQueue \<Rightarrow> 'a ProcessingQueue" where
  "exec [] s = s"
| "exec (c # cs) s = exec cs (snd (step c s))"

fun served :: "'a op list \<Rightarrow> 'a ProcessingQueue \<Rightarrow> 'a event list" where
  "served [] s = []"
| "served (c # cs) s = fst (step c s) @ served cs (snd (step c s))"

definition ev_ref :: "'a event \<Rightarrow> nat" where
  "ev_ref e = fst e"

definition ev_section :: "'a event \<Rightarrow> Section" where
  "ev_section e = fst (snd e)"

definition ev_item :: "'a event \<Rightarrow> 'a item" where
  "ev_item e = snd (snd e)"

fun is_put_or_get :: "'a op \<Rightarrow> bool" where
  "is_put_or_get (Put item block timeout) = True"
| "is_put_or_get (Get block timeout) = True"
| "is_put_or_get (AddSection sec) = False"
| "is_put_or_get (PutSentinel sec) = False"

text \<open>The items that a sub-queue holds.\<close>

fun subqueue_items :: "'a subqueue \<Rightarrow> 'a item list" where
  "subqueue_items (Fifo xs) = xs"
| "subqueue_items (Ordered n h) = h"

fun is_ordered :: "'a subqueue \<Rightarrow> bool" where
  "is_ordered (Fifo xs) = False"
| "is_ordered (Ordered n h) = True"

fun next_index :: "'a subqueue \<Rightarrow> int" where
  "next_index (Fifo xs) = 0"
| "next_index (Ordered n h) = n"

text \<open>An item is tagged with a section when its payload's section compares equal to it; the
  sentinel carries no payload.\<close>

definition tagged :: "Section \<Rightarrow> 'a item \<Rightarrow> bool" where
  "tagged sec item = (case snd item of None \<Rightarrow> True | Some p \<Rightarrow> section_eq (psection p) sec)"

text \<open>
  What every history keeps true of the queue. Its shape: the two deques run in parallel, no
  sub-queue is registered twice, the current section and queue are the left ends of the
  deques, and the counter is 0 when nothing is registered.
\<close>

definition pq_shape :: "'a ProcessingQueue \<Rightarrow> bool" where
  "pq_shape s \<longleftrightarrow>
     length (sections s) = length (queues s) \<and>
     distinct (queues s) \<and>
     (\<forall>a \<in> set (queues s). a < next_ref s) \<and>
     current_section s = (case sections s of [] \<Rightarrow> None | x # _ \<Rightarrow> Some x) \<and>
     current_queue s = (case queues s of [] \<Rightarrow> None | a # _ \<Rightarrow> Some a) \<and>
     (queues s = [] \<longrightarrow> counter s = 0) \<and>
     0 \<le> counter s"

text \<open>
  Its sub-queues: an album section owns an ordered sub-queue, whose \<^verbatim>\<open>next_index\<close> is the
  counter while the section is current and 0 before, and every item lies in the sub-queue
  of a section it is tagged with.
\<close>

definition slot_ok :: "'a ProcessingQueue \<Rightarrow> nat \<Rightarrow> bool" where
  "slot_ok s i \<longleftrightarrow>
     (is_ordered (store s (queues s ! i)) \<longleftrightarrow> plex_type (sections s ! i) = Some PLEX_TYPE_ALBUM) \<and>
     (is_ordered (store s (queues s ! i)) \<longrightarrow>
        next_index (store s (queues s ! i)) = (if i = 0 then counter s else 0)) \<and>
     (\<forall>item \<in> set (subqueue_items (store s (queues s ! i))). tagged (sections s ! i) item)"

definition pq_inv :: "'a ProcessingQueue \<Rightarrow> bool" where
  "pq_inv s \<longleftrightarrow> pq_shape s \<and> (\<forall>i < length (queues s). slot_ok s i)"

text \<open>
  The states of a successful \<^verbatim>\<open>_get\<close>: after the pop and the increment of the counter, and
  after \<^verbatim>\<open>_init_next_section\<close>.
\<close>

definition pop_state :: "'a ProcessingQueue \<Rightarrow> nat \<Rightarrow> 'a subqueue \<Rightarrow> 'a ProcessingQueue" where
  "pop_state s a q' = s\<lparr> store := (store s)(a := q'), counter := counter s + 1 \<rparr>"

definition adv_state :: "'a ProcessingQueue \<Rightarrow> nat \<Rightarrow> 'a subqueue \<Rightarrow> 'a ProcessingQueue" where
  "adv_state s a q' =
     u_switch_queues (s\<lparr> store := (store s)(a := q'), sections := tl (sections s),
                         queues := tl (queues s), counter := 0 \<rparr>)"

text \<open>
  The events of one sub-queue, and those of them that were served while an album section
  was current. A sub-queue is created for one registration of a section and never reused,
  so the events of a sub-queue are the items served while that section was active.
\<close>

definition events_of :: "nat \<Rightarrow> 'a event list \<Rightarrow> 'a event list" where
  "events_of a tr = filter (\<lambda>e. ev_ref e = a) tr"

definition album_events :: "nat \<Rightarrow> 'a event list \<Rightarrow> 'a event list" where
  "album_events a tr =
     filter (\<lambda>e. ev_ref e = a \<and> plex_type (ev_section e) = Some PLEX_TYPE_ALBUM) tr"

definition indices :: "'a event list \<Rightarrow> int option list" where
  "indices tr = map (\<lambda>e. fst (ev_item e)) tr"

definition counting :: "nat \<Rightarrow> int option list" where
  "counting k = map (\<lambda>i. Some (int i)) [0 ..< k]"

text \<open>What a history keeps true of the events served so far.\<close>

definition tr_inv :: "'a event list \<Rightarrow> 'a ProcessingQueue \<Rightarrow> bool" where
  "tr_inv tr s \<longleftrightarrow>
     (\<forall>e \<in> set tr. ev_ref e < next_ref s \<and> ev_ref e \<notin> set (tl (queues s))) \<and>
     (\<forall>a as. queues s = a # as \<longrightarrow>
        int (length (events_of a tr)) = counter s \<and>
        (\<forall>e \<in> set (events_of a tr). Some (ev_section e) = current_section s)) \<and>
     (\<forall>a. indices (album_events a tr) = counting (length (album_events a tr)))"

text \<open>
  The sentinel section \<open>sec\<close> is pending: it is the last registered section, its sub-queue
  is a plain queue with the sentinel at its head, and the counter is 0 when no other
  section is left before it.
\<close>

definition sentinel_pending :: "Section \<Rightarrow> 'a ProcessingQueue \<Rightarrow> bool" where
  "sentinel_pending sec s \<longleftrightarrow>
     sections s \<noteq> [] \<and> last (sections s) = sec \<and>
     (\<exists>rest. store s (last (queues s)) = Fifo ((None, None) # rest)) \<and>
     (length (sections s) = 1 \<longrightarrow> counter s = 0)"

text \<open>The values that the successful \<^verbatim>\<open>get\<close> calls of a history return to the consumer.\<close>

fun returned :: "'a op list \<Rightarrow> 'a ProcessingQueue \<Rightarrow> 'a payload option list" where
  "returned [] s = []"
| "returned (Get block timeout # cs) s =
     (case get block timeout s of
        Returned (p, s') \<Rightarrow> p # returned cs s'
      | _ \<Rightarrow> returned cs s)"
| "returned (c # cs) s = returned cs (snd (step c s))"

text \<open>Whether \<^verbatim>\<open>put\<close> refuses the item for lack of room: it waits, or raises
  \<^verbatim>\<open>Queue.Full\<close>.\<close>

definition refused :: "'a ProcessingQueue outcome \<Rightarrow> bool" where
  "refused r \<longleftrightarrow> r = Blocked \<or> r = Raised Full"

text \<open>The sub-queue that owns an item: the one that \<^verbatim>\<open>_put\<close> routes it to.\<close>

definition owner :: "'a item \<Rightarrow> 'a ProcessingQueue \<Rightarrow> nat option" where
  "owner item s =
     (case snd item of
        None \<Rightarrow> None
      | Some p \<Rightarrow>
          (case find_section (psection p) (sections s) of
             None \<Rightarrow> None
           | Some i \<Rightarrow> if i < length (queues s) then Some (queues s ! i) else None))"

text \<open>Sections and items for the examples: an album section of two items, a movie section
  of one, and the empty \<^verbatim>\<open>Section()\<close>.\<close>

definition album2 :: Section where
  "album2 = \<lparr> section_id = 1, plex_type = Some PLEX_TYPE_ALBUM, number_of_items = 2, failed_items = 0 \<rparr>"

definition movie1 :: Section where
  "movie1 = \<lparr> section_id = 2, plex_type = Some ''movie'', number_of_items = 1, failed_items = 0 \<rparr>"

definition empty_Section :: Section where
  "empty_Section = \<lparr> section_id = 0, plex_type = None, number_of_items = 0, failed_items = 0 \<rparr>"

definition mk_item :: "int \<Rightarrow> Section \<Rightarrow> unit item" where
  "mk_item i sec = (Some i, Some \<lparr> psection = sec, body = () \<rparr>)"

section \<open>\<^verbatim>\<open>KillableThread\<close>\<close>

text \<open>
  A \<^verbatim>\<open>threading.Event\<close> is its flag. The process-wide \<^verbatim>\<open>app.APP.stop_pkc\<close> is an input
  of \<^verbatim>\<open>should_cancel\<close>.
\<close>

record KillableThread =
  u_canceled :: bool
  u_suspended :: bool
  u_is_not_suspended :: bool
  u_suspension_reached :: bool
  u_is_not_asleep :: bool
  suspension_timeout :: "int option"

definition KillableThread_init :: KillableThread where
  "KillableThread_init =
     \<lparr> u_canceled = False, u_suspended = False, u_is_not_suspended = True,
       u_suspension_reached = False, u_is_not_asleep = True, suspension_timeout = None \<rparr>"

definition should_cancel :: "bool \<Rightarrow> KillableThread \<Rightarrow> bool" where
  "should_cancel stop_pkc th \<longleftrightarrow> u_canceled th \<or> stop_pkc"

definition cancel :: "KillableThread \<Rightarrow> KillableThread" where
  "cancel th = th\<lparr> u_canceled := True, u_is_not_suspended := True, u_is_not_asleep := True \<rparr>"

definition should_suspend :: "KillableThread \<Rightarrow> bool" where
  "should_suspend th \<longleftrightarrow> u_suspended th"

text \<open>\<^verbatim>\<open>suspend\<close> returns the new state and whether its caller now waits for
  \<^verbatim>\<open>_suspension_reached\<close>.\<close>

definition suspend :: "bool \<Rightarrow> int option \<Rightarrow> KillableThread \<Rightarrow> KillableThread \<times> bool" where
  "suspend block timeout th =
     (let th' = th\<lparr> suspension_timeout := timeout, u_suspended := True,
                     u_is_not_suspended := False, u_is_not_asleep := True \<rparr>
      in (th', block \<and> \<not> u_suspension_reached th'))"

definition resume :: "KillableThread \<Rightarrow> KillableThread" where
  "resume th = th\<lparr> u_suspended := False, u_is_not_suspended := True, u_is_not_asleep := True \<rparr>"

text \<open>
  \<^verbatim>\<open>wait_while_suspended\<close> and \<^verbatim>\<open>sleep\<close> are run by the thread itself and wait on an event
  in their middle. Each is two steps: up to the wait, and from the wait on. The wait is over
  when the event is set, or when its timeout has run out (\<open>expired\<close>, an input; a wait
  without timeout does not expire).
\<close>

definition wait_while_suspended_begin :: "KillableThread \<Rightarrow> KillableThread" where
  "wait_while_suspended_begin th = th\<lparr> u_suspension_reached := True \<rparr>"

definition wait_while_suspended_end ::
    "bool \<Rightarrow> bool \<Rightarrow> KillableThread \<Rightarrow> (bool \<times> KillableThread) outcome" where
  "wait_while_suspended_end stop_pkc expired th =
     (if u_is_not_suspended th \<or> (expired \<and> suspension_timeout th \<noteq> None)
      then Returned (should_cancel stop_pkc th, th\<lparr> u_suspension_reached := False \<rparr>)
      else Blocked)"

definition is_suspended :: "KillableThread \<Rightarrow> bool" where
  "is_suspended th \<longleftrightarrow> u_suspension_reached th"

definition sleep_begin :: "KillableThread \<Rightarrow> KillableThread" where
  "sleep_begin th = th\<lparr> u_is_not_asleep := False \<rparr>"

definition sleep_end :: "bool \<Rightarrow> KillableThread \<Rightarrow> KillableThread outcome" where
  "sleep_end expired th =
     (if u_is_not_asleep th \<or> expired then Returned (th\<lparr> u_is_not_asleep := True \<rparr>)
      else Blocked)"

definition is_asleep :: "KillableThread \<Rightarrow> bool" where
  "is_asleep th \<longleftrightarrow> \<not> u_is_not_asleep th"

text \<open>The calls on a thread, from other threads and from itself, in any order.\<close>

datatype thread_op =
    Cancel
  | Suspend bool "int option"
  | Resume
  | WaitWhileSuspendedBegin
  | WaitWhileSuspendedEnd bool bool
  | SleepBegin
  | SleepEnd bool

fun thread_step :: "thread_op \<Rightarrow> KillableThread \<Rightarrow> KillableThread" where
  "thread_step Cancel th = cancel th"
| "thread_step (Suspend block timeout) th = fst (suspend block timeout th)"
| "thread_step Resume th = resume th"
| "thread_step WaitWhileSuspendedBegin th = wait_while_suspended_begin th"
| "thread_step (WaitWhileSuspendedEnd stop_pkc expired) th =
     (case wait_while_suspended_end stop_pkc expired th of
        Returned (c, th') \<Rightarrow> th' | _ \<Rightarrow> th)"
| "thread_step SleepBegin th = sleep_begin th"
| "thread_step (SleepEnd expired) th =
     (case sleep_end expired th of Returned th' \<Rightarrow> th' | _ \<Rightarrow> th)"

fun thread_exec :: "thread_op list \<Rightarrow> KillableThread \<Rightarrow> KillableThread" where
  "thread_exec [] th = th"
| "thread_exec (c # cs) th = thread_exec cs (thread_step c th)"

section \<open>\<^verbatim>\<open>Task\<close> and \<^verbatim>\<open>Tasks\<close>\<close>

text \<open>
  A task is an object: \<open>task_id\<close> is its identity. \<open>priority\<close> is \<open>None\<close> until a
  \<^verbatim>\<open>BackgroundThreader\<close> assigns one; \<open>task_canceled\<close> is the attribute \<^verbatim>\<open>_canceled\<close>.
\<close>

record Task =
  task_id :: nat
  priority :: "int option"
  task_canceled :: bool
  finished :: bool

definition Task_init :: "nat \<Rightarrow> Task" where
  "Task_init i = \<lparr> task_id = i, priority = None, task_canceled = False, finished = False \<rparr>"

text \<open>\<^verbatim>\<open>__cmp__\<close>: \<^verbatim>\<open>self.priority - other.priority\<close>; a subtraction with \<open>None\<close> raises
  \<^verbatim>\<open>TypeError\<close>.\<close>

definition Task_cmp :: "Task \<Rightarrow> Task \<Rightarrow> error + int" where
  "Task_cmp a b =
     (case priority a of
        None \<Rightarrow> Inl TypeError
      | Some x \<Rightarrow> (case priority b of None \<Rightarrow> Inl TypeError | Some y \<Rightarrow> Inr (x - y)))"

definition Task_cancel :: "Task \<Rightarrow> Task" where
  "Task_cancel t = t\<lparr> task_canceled := True \<rparr>"

definition isValid :: "Task \<Rightarrow> bool" where
  "isValid t \<longleftrightarrow> \<not> finished t \<and> \<not> task_canceled t"

text \<open>
  \<^verbatim>\<open>list.remove(t)\<close> removes the first element that is \<open>t\<close> or compares equal to it, and
  raises \<^verbatim>\<open>ValueError\<close> when there is none. Two tasks compare equal when \<^verbatim>\<open>__cmp__\<close>
  gives 0; the comparison is not made between an object and itself.
\<close>

fun list_remove :: "Task list \<Rightarrow> Task \<Rightarrow> error + Task list" where
  "list_remove [] t = Inl ValueError"
| "list_remove (x # xs) t =
     (if task_id x = task_id t then Inr xs
      else (case Task_cmp x t of
              Inl e \<Rightarrow> Inl e
            | Inr c \<Rightarrow>
                if c = 0 then Inr xs
                else (case list_remove xs t of Inl e \<Rightarrow> Inl e | Inr ys \<Rightarrow> Inr (x # ys))))"

text \<open>
  The loop \<^verbatim>\<open>for t in self: if not t.isValid(): self.remove(t)\<close> of \<^verbatim>\<open>Tasks.add\<close>. The
  list iterator holds a position \<open>i\<close>; every round tests it against the length that the
  list has by then, reads the element at \<open>i\<close> and moves on by one.
\<close>

function add_loop :: "nat \<Rightarrow> Task list \<Rightarrow> error + Task list" where
  "add_loop i xs =
     (if i < length xs then
        (if \<not> isValid (xs ! i) then
           (case list_remove xs (xs ! i) of
              Inl e \<Rightarrow> Inl e
            | Inr ys \<Rightarrow> add_loop (Suc i) ys)
         else add_loop (Suc i) xs)
      else Inr xs)"
  by pat_completeness auto
termination
proof (relation "measure (\<lambda>(i, xs). Suc (length xs) - i)")
  show "wf (measure (\<lambda>(i, xs). Suc (length xs) - i))" by simp
next
  fix i :: nat and xs ys :: "Task list"
  assume "i < length xs" and "list_remove xs (xs ! i) = Inr ys"
  have shorter: "list_remove zs t = Inr ws \<Longrightarrow> length ws < length zs" for zs ws t
    by (induction zs arbitrary: ws) (auto split: if_splits sum.splits)
  from shorter[OF \<open>list_remove xs (xs ! i) = Inr ys\<close>] \<open>i < length xs\<close>
  show "((Suc i, ys), (i, xs)) \<in> measure (\<lambda>(i, xs). Suc (length xs) - i)" by simp
next
  fix i :: nat and xs :: "Task list"
  assume "i < length xs"
  then show "((Suc i, xs), (i, xs)) \<in> measure (\<lambda>(i, xs). Suc (length xs) - i)" by simp
qed

text \<open>\<^verbatim>\<open>Tasks.add(task)\<close>; the argument is one task or a list of tasks.\<close>

datatype add_arg = One Task | Many "Task list"

definition Tasks_add :: "Task list \<Rightarrow> add_arg \<Rightarrow> error + Task list" where
  "Tasks_add self arg =
     (case add_loop 0 self of
        Inl e \<Rightarrow> Inl e
      | Inr ys \<Rightarrow> Inr (case arg of Many ts \<Rightarrow> ys @ ts | One t \<Rightarrow> ys @ [t]))"

section \<open>\<^verbatim>\<open>MutablePriorityQueue\<close>\<close>

text \<open>
  The queue's \<^verbatim>\<open>self.queue\<close> is a list of tasks. \<^verbatim>\<open>heapq\<close> and \<^verbatim>\<open>list.sort\<close> are Python's;
  they are modelled by their contracts: \<^verbatim>\<open>heappush\<close> adds a task, \<^verbatim>\<open>sort\<close> is stable, and
  \<^verbatim>\<open>heappop\<close> of a sorted list removes its head. The order in which \<^verbatim>\<open>heappush\<close> and
  \<^verbatim>\<open>heappop\<close> leave the other tasks only decides which of several tasks of equal priority
  comes first after the next sort, since \<^verbatim>\<open>_get\<close> sorts before every pop.

  The library compares tasks with \<^verbatim>\<open>__cmp__\<close>, which raises \<^verbatim>\<open>TypeError\<close> on a task
  without priority. Sorting, or taking the minimum of, two tasks or more compares every one
  of them; the model raises on a push as well when some task has no priority (the library
  compares only the tasks on the new task's path to the root then).
\<close>

definition has_priority :: "Task \<Rightarrow> bool" where
  "has_priority t \<longleftrightarrow> priority t \<noteq> None"

definition prio :: "Task \<Rightarrow> int" where
  "prio t = (case priority t of None \<Rightarrow> 0 | Some p \<Rightarrow> p)"

definition comparable :: "Task list \<Rightarrow> bool" where
  "comparable q \<longleftrightarrow> length q < 2 \<or> list_all has_priority q"

definition MPQ_u_put :: "Task list \<Rightarrow> Task \<Rightarrow> error + Task list" where
  "MPQ_u_put q t = (if comparable (q @ [t]) then Inr (q @ [t]) else Inl TypeError)"

definition MPQ_u_get :: "Task list \<Rightarrow> error + (Task \<times> Task list)" where
  "MPQ_u_get q =
     (if \<not> comparable q then Inl TypeError
      else (case sort_key prio q of [] \<Rightarrow> Inl IndexError | t # rest \<Rightarrow> Inr (t, rest)))"

text \<open>\<^verbatim>\<open>lowest\<close>: \<^verbatim>\<open>self.queue and min(self.queue) or None\<close>, and \<open>None\<close> after any
  exception. \<^verbatim>\<open>min\<close> gives the first of the least tasks, as the head of a stable sort is.\<close>

definition lowest :: "Task list \<Rightarrow> Task option" where
  "lowest q =
     (if q = [] then None
      else if \<not> comparable q then None
      else (case sort_key prio q of [] \<Rightarrow> None | t # rest \<Rightarrow> Some t))"

text \<open>\<^verbatim>\<open>Queue.put\<close> of a queue without bound (\<^verbatim>\<open>maxsize = 0\<close>) never waits;
  \<^verbatim>\<open>get_nowait\<close> is \<^verbatim>\<open>get(False)\<close>; \<^verbatim>\<open>empty\<close> is \<^verbatim>\<open>not self._qsize()\<close>.\<close>

definition MPQ_put :: "Task list \<Rightarrow> Task \<Rightarrow> error + Task list" where
  "MPQ_put q t = MPQ_u_put q t"

definition MPQ_get_nowait :: "Task list \<Rightarrow> error + (Task \<times> Task list)" where
  "MPQ_get_nowait q = (if length q = 0 then Inl Empty else MPQ_u_get q)"

definition MPQ_empty :: "Task list \<Rightarrow> bool" where
  "MPQ_empty q \<longleftrightarrow> length q = 0"

section \<open>Workers, \<^verbatim>\<open>BackgroundThreader\<close> and \<^verbatim>\<open>ThreaderManager\<close>\<close>

text \<open>
  A worker is of one of the two worker classes. \<open>w_thread_alive\<close> stands for
  \<^verbatim>\<open>self._thread and self._thread.isAlive()\<close>, \<open>w_working\<close> for the attribute \<^verbatim>\<open>_working\<close> of
  a \<^verbatim>\<open>NonstoppingBackgroundWorker\<close>. A worker's name \<^verbatim>\<open>'queue.{0}:worker.{1}'\<close> is kept as
  the pair of the two values it is formatted from.
\<close>

datatype worker_class = BackgroundWorker | NonstoppingBackgroundWorker

record worker =
  w_class :: worker_class
  w_name :: "int option \<times> int"
  w_abort :: bool
  w_thread_alive :: bool
  w_working :: bool
  w_task :: "Task option"

definition worker_init :: "worker_class \<Rightarrow> int option \<times> int \<Rightarrow> worker" where
  "worker_init cls name =
     \<lparr> w_class = cls, w_name = name, w_abort = False, w_thread_alive = False,
       w_working = False, w_task = None \<rparr>"

definition worker_abort :: "worker \<Rightarrow> worker" where
  "worker_abort w = w\<lparr> w_abort := True \<rparr>"

text \<open>\<^verbatim>\<open>start\<close> returns at once when the worker's thread is alive, and starts a thread
  otherwise; what the thread then does is calls of its own.\<close>

definition worker_start :: "worker \<Rightarrow> worker" where
  "worker_start w = (if w_thread_alive w then w else w\<lparr> w_thread_alive := True \<rparr>)"

definition worker_working :: "worker \<Rightarrow> bool" where
  "worker_working w =
     (case w_class w of BackgroundWorker \<Rightarrow> w_thread_alive w
                      | NonstoppingBackgroundWorker \<Rightarrow> w_working w)"

text \<open>The name of a threader is \<open>None\<close> or \<^verbatim>\<open>str(index)\<close> of its manager, kept as the index.\<close>

record BackgroundThreader =
  bt_name :: "int option"
  bt_queue :: "Task list"
  bt_abort :: bool
  bt_priority :: int
  workers :: "worker list"

text \<open>\<^verbatim>\<open>__init__(self, name=None, worker=BackgroundWorker, worker_count=6)\<close>; an argument that
  the caller leaves out is \<open>None\<close> here, and the default takes its place.\<close>

definition BackgroundThreader_init ::
    "int option \<Rightarrow> worker_class option \<Rightarrow> int option \<Rightarrow> BackgroundThreader" where
  "BackgroundThreader_init name worker worker_count =
     (let cls = (case worker of None \<Rightarrow> BackgroundWorker | Some c \<Rightarrow> c);
          n = (case worker_count of None \<Rightarrow> 6 | Some k \<Rightarrow> k)
      in \<lparr> bt_name = name, bt_queue = [], bt_abort = False, bt_priority = - 1,
           workers = map (\<lambda>x. worker_init cls (name, int x)) [0 ..< nat n] \<rparr>)"

definition u_nextPriority :: "BackgroundThreader \<Rightarrow> int \<times> BackgroundThreader" where
  "u_nextPriority bt = (bt_priority bt + 1, bt\<lparr> bt_priority := bt_priority bt + 1 \<rparr>)"

definition BackgroundThreader_abort :: "BackgroundThreader \<Rightarrow> BackgroundThreader" where
  "BackgroundThreader_abort bt = bt\<lparr> bt_abort := True, workers := map worker_abort (workers bt) \<rparr>"

definition startWorkers :: "BackgroundThreader \<Rightarrow> BackgroundThreader" where
  "startWorkers bt = bt\<lparr> workers := map worker_start (workers bt) \<rparr>"

definition addTask :: "Task \<Rightarrow> BackgroundThreader \<Rightarrow> error + BackgroundThreader" where
  "addTask task bt =
     (let (p, bt1) = u_nextPriority bt
      in case MPQ_put (bt_queue bt1) (task\<lparr> priority := Some p \<rparr>) of
           Inl e \<Rightarrow> Inl e
         | Inr q \<Rightarrow> Inr (startWorkers (bt1\<lparr> bt_queue := q \<rparr>)))"

fun addTasks_loop :: "Task list \<Rightarrow> BackgroundThreader \<Rightarrow> error + BackgroundThreader" where
  "addTasks_loop [] bt = Inr bt"
| "addTasks_loop (t # ts) bt =
     (let (p, bt1) = u_nextPriority bt
      in case MPQ_put (bt_queue bt1) (t\<lparr> priority := Some p \<rparr>) of
           Inl e \<Rightarrow> Inl e
         | Inr q \<Rightarrow> addTasks_loop ts (bt1\<lparr> bt_queue := q \<rparr>))"

definition addTasks :: "Task list \<Rightarrow> BackgroundThreader \<Rightarrow> error + BackgroundThreader" where
  "addTasks tasks bt =
     (case addTasks_loop tasks bt of Inl e \<Rightarrow> Inl e | Inr bt' \<Rightarrow> Inr (startWorkers bt'))"

text \<open>\<^verbatim>\<open>getLowestPrority\<close>: a task object is true, so \<^verbatim>\<open>not lowest\<close> holds of \<open>None\<close> only.\<close>

definition getLowestPrority :: "BackgroundThreader \<Rightarrow> int option" where
  "getLowestPrority bt = (case lowest (bt_queue bt) of None \<Rightarrow> None | Some t \<Rightarrow> priority t)"

fun addTasksToFront_loop ::
    "int \<Rightarrow> Task list \<Rightarrow> BackgroundThreader \<Rightarrow> error + BackgroundThreader" where
  "addTasksToFront_loop p [] bt = Inr bt"
| "addTasksToFront_loop p (t # ts) bt =
     (case MPQ_put (bt_queue bt) (t\<lparr> priority := Some p \<rparr>) of
        Inl e \<Rightarrow> Inl e
      | Inr q \<Rightarrow> addTasksToFront_loop (p + 1) ts (bt\<lparr> bt_queue := q \<rparr>))"

definition addTasksToFront :: "Task list \<Rightarrow> BackgroundThreader \<Rightarrow> error + BackgroundThreader" where
  "addTasksToFront tasks bt =
     (case getLowestPrority bt of
        None \<Rightarrow> addTasks tasks bt
      | Some low \<Rightarrow>
          (case addTasksToFront_loop (low - int (length tasks)) tasks bt of
             Inl e \<Rightarrow> Inl e
           | Inr bt' \<Rightarrow> Inr (startWorkers bt')))"

definition hasTask :: "BackgroundThreader \<Rightarrow> bool" where
  "hasTask bt \<longleftrightarrow> list_ex worker_working (workers bt)"

text \<open>
  The calls on a threader: the three ways to submit tasks, and a worker's
  \<^verbatim>\<open>self._queue.get_nowait()\<close>, which serves a task. A call that raises leaves the
  threader as it was.
\<close>

datatype bt_op = AddTask Task | AddTasks "Task list" | AddTasksToFront "Task list" | WorkerGet

fun keep :: "BackgroundThreader \<Rightarrow> error + BackgroundThreader \<Rightarrow> BackgroundThreader" where
  "keep bt (Inl e) = bt"
| "keep bt (Inr bt') = bt'"

fun bt_step :: "bt_op \<Rightarrow> BackgroundThreader \<Rightarrow> Task list \<times> BackgroundThreader" where
  "bt_step (AddTask t) bt = ([], keep bt (addTask t bt))"
| "bt_step (AddTasks ts) bt = ([], keep bt (addTasks ts bt))"
| "bt_step (AddTasksToFront ts) bt = ([], keep bt (addTasksToFront ts bt))"
| "bt_step WorkerGet bt =
     (case MPQ_get_nowait (bt_queue bt) of
        Inl e \<Rightarrow> ([], bt)
      | Inr (t, q) \<Rightarrow> ([t], bt\<lparr> bt_queue := q \<rparr>))"

fun bt_exec :: "bt_op list \<Rightarrow> BackgroundThreader \<Rightarrow> BackgroundThreader" where
  "bt_exec [] bt = bt"
| "bt_exec (c # cs) bt = bt_exec cs (snd (bt_step c bt))"

fun bt_served :: "bt_op list \<Rightarrow> BackgroundThreader \<Rightarrow> Task list" where
  "bt_served [] bt = []"
| "bt_served (c # cs) bt = fst (bt_step c bt) @ bt_served cs (snd (bt_step c bt))"

fun not_to_front :: "bt_op \<Rightarrow> bool" where
  "not_to_front (AddTask t) = True"
| "not_to_front (AddTasks ts) = True"
| "not_to_front (AddTasksToFront ts) = False"
| "not_to_front WorkerGet = True"

text \<open>The tasks that the next \<open>n\<close> calls of \<^verbatim>\<open>get_nowait\<close> serve, in this order.\<close>

definition serve :: "nat \<Rightarrow> BackgroundThreader \<Rightarrow> Task list" where
  "serve n bt = bt_served (replicate n WorkerGet) bt"

text \<open>Tasks with the priorities \<open>p\<close>, \<open>p + 1\<close>, \<open>p + 2\<close>, ... in the order of the list.\<close>

fun renumber :: "int \<Rightarrow> Task list \<Rightarrow> Task list" where
  "renumber p [] = []"
| "renumber p (t # ts) = t\<lparr> priority := Some p \<rparr> # renumber (p + 1) ts"

text \<open>The tasks in the queue have priorities, no two the same, and none above the last one
  that \<^verbatim>\<open>_nextPriority\<close> gave out.\<close>

definition fresh_priorities :: "BackgroundThreader \<Rightarrow> bool" where
  "fresh_priorities bt \<longleftrightarrow>
     list_all has_priority (bt_queue bt) \<and> distinct (map prio (bt_queue bt)) \<and>
     (\<forall>t \<in> set (bt_queue bt). prio t \<le> bt_priority bt)"

record ThreaderManager =
  tm_index :: int
  abandoned :: "BackgroundThreader list"
  u_workerhandler :: worker_class
  threader :: BackgroundThreader

text \<open>\<^verbatim>\<open>__init__(self, worker=BackgroundWorker, worker_count=6)\<close> passes both arguments on
  to its first threader.\<close>

definition ThreaderManager_init :: "worker_class option \<Rightarrow> int option \<Rightarrow> ThreaderManager" where
  "ThreaderManager_init worker worker_count =
     (let cls = (case worker of None \<Rightarrow> BackgroundWorker | Some c \<Rightarrow> c);
          n = (case worker_count of None \<Rightarrow> 6 | Some k \<Rightarrow> k)
      in \<lparr> tm_index = 0, abandoned = [], u_workerhandler = cls,
           threader = BackgroundThreader_init (Some 0) (Some cls) (Some n) \<rparr>)"

text \<open>\<^verbatim>\<open>reset\<close>: the new threader is made with \<^verbatim>\<open>name\<close> and \<^verbatim>\<open>worker\<close> only.\<close>

definition reset :: "ThreaderManager \<Rightarrow> ThreaderManager" where
  "reset tm =
     (if MPQ_empty (bt_queue (threader tm)) \<and> \<not> hasTask (threader tm) then tm
      else tm\<lparr> tm_index := tm_index tm + 1,
               abandoned := abandoned tm @ [BackgroundThreader_abort (threader tm)],
               threader := BackgroundThreader_init (Some (tm_index tm + 1))
                             (Some (u_workerhandler tm)) None \<rparr>)"

text \<open>For the examples: a manager made with two workers of the second class, with one task
  submitted.\<close>

definition busy_manager :: ThreaderManager where
  "busy_manager =
     (let tm = ThreaderManager_init (Some NonstoppingBackgroundWorker) (Some 2)
      in tm\<lparr> threader := keep (threader tm) (addTask (Task_init 1) (threader tm)) \<rparr>)"

section \<open>Properties of the \<^verbatim>\<open>ProcessingQueue\<close>\<close>

subsection \<open>What every history preserves\<close>

lemma exec_append: "exec (xs @ ys) s = exec ys (exec xs s)"
  by (induction xs arbitrary: s) auto

lemma served_append: "served (xs @ ys) s = served xs s @ served ys (exec xs s)"
  by (induction xs arbitrary: s) auto

lemma get_Returned_u_get: "get block timeout s = Returned r \<Longrightarrow> u_get s = Returned r"
  by (auto simp: get_def split: if_splits option.splits)

lemma subqueue_get_Returned:
  "subqueue_get q = Returned (item, q') \<Longrightarrow>
     (\<exists>xs. q = Fifo (item # xs) \<and> q' = Fifo xs) \<or>
     (\<exists>n xs. q = Ordered n (item # xs) \<and> fst item = Some n \<and> q' = Ordered (n + 1) xs)"
  by (cases q rule: subqueue_get.cases) (auto split: if_splits)

lemma pq_inv_init: "pq_inv (u_init m)"
  by (simp add: pq_inv_def pq_shape_def u_init_def)

lemma u_get_Returned:
  assumes "u_get s = Returned (p, s')" and "pq_shape s"
  shows "\<exists>a as sec secs item q'. queues s = a # as \<and> sections s = sec # secs \<and>
           subqueue_get (store s a) = Returned (item, q') \<and> p = snd item \<and>
           s' = (if counter s + 1 = number_of_items sec - failed_items sec
                 then adv_state s a q' else pop_state s a q')"
  using assms
  by (auto simp: u_get_def pq_shape_def u_init_next_section_def Let_def pop_state_def adv_state_def split: option.splits outcome.splits if_splits list.splits sum.splits)


lemma set_heappush: "set (heappush h x) = insert x (set h)"
  by (induction h) auto

lemma subqueue_put_simps:
  "is_ordered (subqueue_put q x) = is_ordered q"
  "next_index (subqueue_put q x) = next_index q"
  "set (subqueue_items (subqueue_put q x)) = insert x (set (subqueue_items q))"
  by (cases q; simp add: set_heappush)+

lemma u_add_section_eq:
  assumes "pq_shape s"
  shows "u_add_section sec s =
     s\<lparr> store := (store s)(next_ref s := (if plex_type sec = Some PLEX_TYPE_ALBUM then Ordered 0 [] else Fifo [])),
        next_ref := Suc (next_ref s),
        sections := sections s @ [sec],
        queues := queues s @ [next_ref s],
        current_section := Some (hd (sections s @ [sec])),
        current_queue := Some (hd (queues s @ [next_ref s])) \<rparr>"
  using assms
  by (cases "sections s"; cases "queues s")
     (auto simp: u_add_section_def pq_shape_def Let_def u_switch_queues_def)

lemma pq_shape_add:
  assumes "pq_shape s"
  shows "pq_shape (u_add_section sec s)"
  using assms unfolding u_add_section_eq[OF assms]
  by (cases "sections s"; cases "queues s") (auto simp: pq_shape_def)

lemma find_section_Some:
  "find_section x secs = Some i \<Longrightarrow> i < length secs \<and> section_eq x (secs ! i)"
  by (induction secs arbitrary: i) (auto split: if_splits option.splits)


lemma slot_ok_add:
  assumes inv: "pq_inv s" and i: "i < Suc (length (queues s))"
  shows "slot_ok (u_add_section sec s) i"
proof -
  have sh: "pq_shape s" using inv by (simp add: pq_inv_def)
  show ?thesis
  proof (cases "i < length (queues s)")
    case True
    then have "queues s ! i \<in> set (queues s)" by simp
    then have "queues s ! i < next_ref s" using sh by (simp add: pq_shape_def)
    then have ne: "queues s ! i \<noteq> next_ref s" by simp
    have ok: "slot_ok s i" using inv True by (simp add: pq_inv_def)
    have len: "i < length (sections s)" using sh True by (simp add: pq_shape_def)
    show ?thesis using ok ne True len
      unfolding u_add_section_eq[OF sh] by (simp add: slot_ok_def nth_append)
  next
    case False
    then have ieq: "i = length (queues s)" using i by simp
    have len: "length (sections s) = length (queues s)" using sh by (simp add: pq_shape_def)
    have c0: "queues s = [] \<longrightarrow> counter s = 0" using sh by (simp add: pq_shape_def)
    show ?thesis using ieq len c0
      unfolding u_add_section_eq[OF sh] by (auto simp: slot_ok_def nth_append)
  qed
qed

lemma pq_inv_add:
  assumes "pq_inv s"
  shows "pq_inv (u_add_section sec s)"
proof -
  have sh: "pq_shape s" using assms by (simp add: pq_inv_def)
  have len: "length (queues (u_add_section sec s)) = Suc (length (queues s))"
    unfolding u_add_section_eq[OF sh] by simp
  show ?thesis
    using pq_shape_add[OF sh] slot_ok_add[OF assms] len by (simp add: pq_inv_def)
qed


lemma pq_inv_unfinished [simp]: "pq_inv (s\<lparr> unfinished_tasks := u \<rparr>) = pq_inv s"
  by (simp add: pq_inv_def pq_shape_def slot_ok_def)

lemma pq_inv_store_put:
  assumes inv: "pq_inv s" and i: "i < length (queues s)" and tg: "tagged (sections s ! i) item"
  shows "pq_inv (s\<lparr> store := (store s)(queues s ! i := subqueue_put (store s (queues s ! i)) item) \<rparr>)"
    (is "pq_inv ?s'")
proof -
  have sh: "pq_shape s" using inv by (simp add: pq_inv_def)
  then have sh': "pq_shape ?s'" by (simp add: pq_shape_def)
  have dist: "distinct (queues s)" using sh by (simp add: pq_shape_def)
  have "slot_ok ?s' j" if j: "j < length (queues s)" for j
  proof (cases "j = i")
    case True
    have "slot_ok s i" using inv i by (simp add: pq_inv_def)
    then show ?thesis using True tg by (simp add: slot_ok_def subqueue_put_simps)
  next
    case False
    then have "queues s ! j \<noteq> queues s ! i"
      using dist i j by (simp add: nth_eq_iff_index_eq)
    moreover have "slot_ok s j" using inv j by (simp add: pq_inv_def)
    ultimately show ?thesis by (simp add: slot_ok_def)
  qed
  then show ?thesis using sh' by (simp add: pq_inv_def)
qed

lemma u_put_Inr:
  assumes "u_put item s = Inr (i, s')"
  shows "\<exists>p. snd item = Some p \<and> find_section (psection p) (sections s) = Some i \<and>
           i < length (queues s) \<and>
           s' = s\<lparr> store := (store s)(queues s ! i := subqueue_put (store s (queues s ! i)) item) \<rparr>"
  using assms by (auto simp: u_put_def Let_def split: option.splits if_splits)

lemma put_Returned:
  assumes "put item block timeout s = Returned s'"
  shows "\<exists>i s1. u_put item s = Inr (i, s1) \<and> s' = s1\<lparr> unfinished_tasks := unfinished_tasks s1 + 1 \<rparr>"
  using assms by (auto simp: put_def Let_def split: option.splits if_splits sum.splits)

lemma pq_inv_put:
  assumes inv: "pq_inv s" and put: "put item block timeout s = Returned s'"
  shows "pq_inv s'"
proof -
  from put_Returned[OF put] obtain i s1 where
    up: "u_put item s = Inr (i, s1)" and s': "s' = s1\<lparr> unfinished_tasks := unfinished_tasks s1 + 1 \<rparr>"
    by blast
  from u_put_Inr[OF up] obtain p where p: "snd item = Some p"
    and f: "find_section (psection p) (sections s) = Some i" and i: "i < length (queues s)"
    and s1: "s1 = s\<lparr> store := (store s)(queues s ! i := subqueue_put (store s (queues s ! i)) item) \<rparr>"
    by blast
  have "tagged (sections s ! i) item"
    using find_section_Some[OF f] p by (simp add: tagged_def)
  from pq_inv_store_put[OF inv i this] show ?thesis by (simp add: s' s1)
qed

lemma last_queues_add:
  assumes "pq_shape s"
  shows "last (queues (u_add_section sec s)) = next_ref s"
    and "queues (u_add_section sec s) = queues s @ [next_ref s]"
    and "sections (u_add_section sec s) = sections s @ [sec]"
  unfolding u_add_section_eq[OF assms] by simp_all

lemma pq_inv_put_sentinel:
  assumes inv: "pq_inv s"
  shows "pq_inv (put_sentinel sec s)"
proof -
  let ?sec = "sec\<lparr> number_of_items := 1, failed_items := 0 \<rparr>"
  let ?s1 = "u_add_section ?sec s"
  have sh: "pq_shape s" using inv by (simp add: pq_inv_def)
  have inv1: "pq_inv ?s1" by (rule pq_inv_add[OF inv])
  have q1: "queues ?s1 = queues s @ [next_ref s]" by (rule last_queues_add[OF sh])
  have len: "length (queues s) < length (queues ?s1)" by (simp add: q1)
  have nth: "queues ?s1 ! length (queues s) = next_ref s" by (simp add: q1)
  have "tagged (sections ?s1 ! length (queues s)) (None, None)" by (simp add: tagged_def)
  from pq_inv_store_put[OF inv1 len this]
  show ?thesis by (simp add: put_sentinel_def Let_def q1)
qed

lemma pq_inv_pop:
  assumes inv: "pq_inv s" and q: "queues s = a # as"
    and g: "subqueue_get (store s a) = Returned (item, q')"
  shows "pq_inv (pop_state s a q')"
proof -
  have sh: "pq_shape s" using inv by (simp add: pq_inv_def)
  then have sh': "pq_shape (pop_state s a q')" using q by (simp add: pq_shape_def pop_state_def)
  have a: "a \<notin> set as" using sh q by (simp add: pq_shape_def)
  have "slot_ok (pop_state s a q') j" if j: "j < length (queues s)" for j
  proof (cases j)
    case 0
    have "slot_ok s 0" using inv q by (simp add: pq_inv_def)
    then show ?thesis using 0 q subqueue_get_Returned[OF g]
      by (auto simp: slot_ok_def pop_state_def)
  next
    case (Suc k)
    then have "queues s ! j \<in> set as" using j q by simp
    then have "queues s ! j \<noteq> a" using a by auto
    moreover have "slot_ok s j" using inv j by (simp add: pq_inv_def)
    ultimately show ?thesis using Suc by (simp add: slot_ok_def pop_state_def)
  qed
  then show ?thesis using sh' by (simp add: pq_inv_def pop_state_def)
qed

lemma pq_inv_adv:
  assumes inv: "pq_inv s" and q: "queues s = a # as"
    and g: "subqueue_get (store s a) = Returned (item, q')"
  shows "pq_inv (adv_state s a q')"
proof -
  have sh: "pq_shape s" using inv by (simp add: pq_inv_def)
  obtain sec secs where secs: "sections s = sec # secs"
    using sh q by (cases "sections s") (auto simp: pq_shape_def)
  have sh': "pq_shape (adv_state s a q')" using sh q secs
    by (auto simp: pq_shape_def adv_state_def u_switch_queues_def split: list.splits)
  have a: "a \<notin> set as" using sh q by (simp add: pq_shape_def)
  have "slot_ok (adv_state s a q') j" if j: "j < length as" for j
  proof -
    have "as ! j \<in> set as" using j by simp
    then have ne: "as ! j \<noteq> a" using a by auto
    have "slot_ok s (Suc j)" using inv j q by (simp add: pq_inv_def)
    then show ?thesis using ne q secs
      by (simp add: slot_ok_def adv_state_def u_switch_queues_def)
  qed
  then show ?thesis using sh' q by (simp add: pq_inv_def adv_state_def u_switch_queues_def)
qed

lemma pq_inv_get:
  assumes inv: "pq_inv s" and get: "get block timeout s = Returned (p, s')"
  shows "pq_inv s'"
proof -
  have sh: "pq_shape s" using inv by (simp add: pq_inv_def)
  from u_get_Returned[OF get_Returned_u_get[OF get] sh]
  show ?thesis using pq_inv_pop[OF inv] pq_inv_adv[OF inv] by (auto split: if_splits)
qed

lemma pq_inv_step: "pq_inv s \<Longrightarrow> pq_inv (snd (step c s))"
  by (cases c)
     (auto simp: add_section_def pq_inv_add pq_inv_put_sentinel
           split: outcome.splits prod.splits dest: pq_inv_put pq_inv_get)

lemma pq_inv_exec: "pq_inv s \<Longrightarrow> pq_inv (exec cs s)"
  by (induction cs arbitrary: s) (auto simp: pq_inv_step)


lemma set_tl_subset: "x \<in> set (tl xs) \<Longrightarrow> x \<in> set xs"
  by (cases xs) auto

lemma front_item_get:
  assumes "pq_shape s" and "queues s = a # as" and "sections s = sec # secs"
    and "subqueue_get (store s a) = Returned (item, q')"
  shows "front_item s = Some (a, sec, item)"
  using assms by (simp add: front_item_def pq_shape_def)

lemma tr_inv_init: "tr_inv [] (u_init m)"
  by (simp add: tr_inv_def u_init_def events_of_def album_events_def indices_def counting_def)

lemma tr_inv_unfinished [simp]: "tr_inv tr (s\<lparr> unfinished_tasks := u \<rparr>) = tr_inv tr s"
  by (simp add: tr_inv_def)

lemma tr_inv_store [simp]: "tr_inv tr (s\<lparr> store := st \<rparr>) = tr_inv tr s"
  by (simp add: tr_inv_def)

lemma tr_inv_put:
  assumes "tr_inv tr s" and "put item block timeout s = Returned s'"
  shows "tr_inv tr s'"
proof -
  from put_Returned[OF assms(2)] obtain i s1 where
    up: "u_put item s = Inr (i, s1)" and s': "s' = s1\<lparr> unfinished_tasks := unfinished_tasks s1 + 1 \<rparr>"
    by blast
  from u_put_Inr[OF up] assms(1) show ?thesis by (auto simp: s')
qed

lemma events_of_fresh:
  assumes "\<forall>e \<in> set tr. ev_ref e < n"
  shows "events_of n tr = []"
  using assms by (auto simp: events_of_def filter_empty_conv)

lemma tr_inv_add:
  assumes tr: "tr_inv tr s" and sh: "pq_shape s"
  shows "tr_inv tr (u_add_section sec s)"
proof -
  have fresh: "\<forall>e \<in> set tr. ev_ref e < next_ref s" using tr by (simp add: tr_inv_def)
  show ?thesis
  proof (cases "queues s")
    case Nil
    then have "sections s = []" "counter s = 0" using sh by (auto simp: pq_shape_def)
    then show ?thesis using tr Nil events_of_fresh[OF fresh] fresh
      unfolding u_add_section_eq[OF sh] by (auto simp: tr_inv_def)
  next
    case (Cons a as)
    then obtain x xs where "sections s = x # xs" using sh by (cases "sections s") (auto simp: pq_shape_def)
    moreover have "current_section s = Some (hd (sections s))" using sh calculation by (simp add: pq_shape_def)
    ultimately show ?thesis using tr Cons fresh
      unfolding u_add_section_eq[OF sh] by (auto simp: tr_inv_def)
  qed
qed

lemma tr_inv_put_sentinel:
  assumes tr: "tr_inv tr s" and sh: "pq_shape s"
  shows "tr_inv tr (put_sentinel sec s)"
  using tr_inv_add[OF tr sh] by (simp add: put_sentinel_def Let_def)

lemma counting_Suc: "counting (Suc k) = counting k @ [Some (int k)]"
  by (simp add: counting_def)

lemma tr_inv_get:
  assumes tr: "tr_inv tr s" and inv: "pq_inv s"
    and q: "queues s = a # as" and secs: "sections s = sec # secs"
    and g: "subqueue_get (store s a) = Returned (item, q')"
  shows "tr_inv (tr @ [(a, sec, item)]) (pop_state s a q')"
    and "tr_inv (tr @ [(a, sec, item)]) (adv_state s a q')"
proof -
  let ?e = "(a, sec, item)"
  have sh: "pq_shape s" using inv by (simp add: pq_inv_def)
  have a_as: "a \<notin> set as" and a_lt: "a < next_ref s" and cur: "current_section s = Some sec"
    and dist: "distinct as"
    using sh q secs by (auto simp: pq_shape_def)
  have cnt: "int (length (events_of a tr)) = counter s"
    and secs_a: "\<forall>e \<in> set (events_of a tr). ev_section e = sec"
    using tr q cur by (auto simp: tr_inv_def)
  have tl_free: "\<forall>e \<in> set tr. ev_ref e \<notin> set as" and lt: "\<forall>e \<in> set tr. ev_ref e < next_ref s"
    using tr q by (auto simp: tr_inv_def)
  have slot: "slot_ok s 0" using inv q by (simp add: pq_inv_def)
  have idx: "plex_type sec = Some PLEX_TYPE_ALBUM \<Longrightarrow> fst item = Some (counter s)"
    using slot q secs subqueue_get_Returned[OF g] by (auto simp: slot_ok_def)
  have alb_a: "plex_type sec = Some PLEX_TYPE_ALBUM \<Longrightarrow> album_events a tr = events_of a tr"
    using secs_a by (auto simp: album_events_def events_of_def intro!: filter_cong)
  have ord: "indices (album_events b (tr @ [?e])) = counting (length (album_events b (tr @ [?e])))" for b
  proof (cases "b = a \<and> plex_type sec = Some PLEX_TYPE_ALBUM")
    case True
    have old: "indices (album_events a tr) = counting (length (album_events a tr))"
      using tr by (simp add: tr_inv_def)
    have "album_events a (tr @ [?e]) = album_events a tr @ [?e]"
      using True by (simp add: album_events_def ev_ref_def ev_section_def)
    moreover have "fst item = Some (int (length (album_events a tr)))"
      using idx alb_a cnt True by simp
    ultimately show ?thesis using True old
      by (simp add: indices_def counting_Suc ev_item_def)
  next
    case False
    then have "album_events b (tr @ [?e]) = album_events b tr"
      by (auto simp: album_events_def ev_ref_def ev_section_def)
    then show ?thesis using tr by (simp add: tr_inv_def)
  qed
  show "tr_inv (tr @ [?e]) (pop_state s a q')"
    using ord q a_as a_lt lt tl_free cnt secs_a cur
    by (auto simp: tr_inv_def pop_state_def events_of_def ev_ref_def ev_section_def)
  have none: "events_of b tr = []" if "b \<in> set as" for b
    using tl_free that by (auto simp: events_of_def filter_empty_conv)
  show "tr_inv (tr @ [?e]) (adv_state s a q')"
    unfolding tr_inv_def
  proof (intro conjI allI impI ballI)
    fix e assume "e \<in> set (tr @ [?e])"
    then show "ev_ref e < next_ref (adv_state s a q')"
      using lt a_lt by (auto simp: adv_state_def u_switch_queues_def ev_ref_def)
  next
    fix e assume "e \<in> set (tr @ [?e])"
    then show "ev_ref e \<notin> set (tl (queues (adv_state s a q')))"
      using tl_free a_as q by (auto simp: adv_state_def u_switch_queues_def ev_ref_def dest: set_tl_subset)
  next
    fix b bs assume "queues (adv_state s a q') = b # bs"
    then have b: "b \<in> set as" using q by (auto simp: adv_state_def u_switch_queues_def)
    then have "b \<noteq> a" using a_as by auto
    then have "events_of b (tr @ [?e]) = []" using none[OF b] by (simp add: events_of_def ev_ref_def)
    then show "int (length (events_of b (tr @ [?e]))) = counter (adv_state s a q')"
      by (simp add: adv_state_def u_switch_queues_def)
  next
    fix b bs e assume "queues (adv_state s a q') = b # bs" and e: "e \<in> set (events_of b (tr @ [?e]))"
    then have b: "b \<in> set as" using q by (auto simp: adv_state_def u_switch_queues_def)
    then have "b \<noteq> a" using a_as by auto
    then have "events_of b (tr @ [?e]) = []" using none[OF b] by (simp add: events_of_def ev_ref_def)
    then show "Some (ev_section e) = current_section (adv_state s a q')" using e by simp
  next
    fix b show "indices (album_events b (tr @ [?e])) = counting (length (album_events b (tr @ [?e])))"
      by (rule ord)
  qed
qed

lemma tr_inv_step:
  assumes tr: "tr_inv tr s" and inv: "pq_inv s"
  shows "tr_inv (tr @ fst (step c s)) (snd (step c s))"
proof (cases c)
  case (Put item block timeout)
  then show ?thesis using tr tr_inv_put[OF tr] by (auto split: outcome.splits)
next
  case (Get block timeout)
  have sh: "pq_shape s" using inv by (simp add: pq_inv_def)
  show ?thesis
  proof (cases "get block timeout s")
    case (Returned r)
    obtain p s' where r: "r = (p, s')" by (cases r)
    from u_get_Returned[OF get_Returned_u_get[OF Returned[unfolded r]] sh]
    obtain a as sec secs item q' where q: "queues s = a # as" and secs: "sections s = sec # secs"
      and g: "subqueue_get (store s a) = Returned (item, q')"
      and s': "s' = (if counter s + 1 = number_of_items sec - failed_items sec
                 then adv_state s a q' else pop_state s a q')" by blast
    have fi: "front_item s = Some (a, sec, item)" by (rule front_item_get[OF sh q secs g])
    show ?thesis using Get Returned r fi s' tr_inv_get[OF tr inv q secs g] by simp
  qed (use Get tr in simp_all)
next
  case (AddSection sec)
  then show ?thesis using tr_inv_add[OF tr] inv by (simp add: add_section_def pq_inv_def)
next
  case (PutSentinel sec)
  then show ?thesis using tr_inv_put_sentinel[OF tr] inv by (simp add: pq_inv_def)
qed

lemma tr_inv_exec:
  "tr_inv tr s \<Longrightarrow> pq_inv s \<Longrightarrow> tr_inv (tr @ served cs s) (exec cs s)"
proof (induction cs arbitrary: tr s)
  case Nil
  then show ?case by simp
next
  case (Cons c cs)
  have "tr_inv ((tr @ fst (step c s)) @ served cs (snd (step c s))) (exec cs (snd (step c s)))"
    by (rule Cons.IH[OF tr_inv_step[OF Cons.prems] pq_inv_step[OF Cons.prems(2)]])
  then show ?case by simp
qed

lemma reach_inv: "pq_inv (exec cs (u_init m))" "tr_inv (served cs (u_init m)) (exec cs (u_init m))"
  using pq_inv_exec[OF pq_inv_init] tr_inv_exec[OF tr_inv_init pq_inv_init] by auto

text \<open>The definitions that evaluate a history of calls on given arguments.\<close>

lemmas pq_eval = u_init_def add_section_def u_add_section_def u_switch_queues_def put_def u_put_def get_def u_get_def
  u_qsize_def u_init_next_section_def put_sentinel_def front_item_def section_eq_def PLEX_TYPE_ALBUM_def Let_def
  album2_def movie1_def empty_Section_def mk_item_def album_events_def indices_def counting_def ev_ref_def ev_section_def ev_item_def
  owner_def refused_def

subsection \<open>Ordered delivery\<close>

text \<open>
  Claim C1. Take any history of calls on a queue fresh from \<^verbatim>\<open>_init\<close>, and any sub-queue
  \<open>a\<close> in it. The items that \<^verbatim>\<open>get\<close> served from \<open>a\<close> while an album section was
  current carry the indices 0, 1, 2, ... in this order, without a gap, whatever the order of
  the puts was: the item with index \<open>i + 1\<close> is never served before the item with index \<open>i\<close>.
\<close>

theorem ordered_delivery:
  "indices (album_events a (served cs (u_init m))) =
     counting (length (album_events a (served cs (u_init m))))"
  using reach_inv(2)[of cs m] by (simp add: tr_inv_def)

text \<open>An album section of two items, whose item 1 is put before its item 0: the first
  \<^verbatim>\<open>get\<close> waits, and the two items are served in the order 0, 1.\<close>

theorem ordered_delivery_witness:
  "get True None (exec [AddSection album2, Put (mk_item 1 album2) True None] (u_init 500)) = Blocked \<and>
   indices (album_events 0 (served [AddSection album2, Put (mk_item 1 album2) True None,
       Get True None, Put (mk_item 0 album2) True None, Get True None, Get True None] (u_init 500)))
     = [Some 0, Some 1]"
proof -
  let ?cs = "[AddSection album2, Put (mk_item 1 album2) True None,
       Get True None, Put (mk_item 0 album2) True None, Get True None, Get True None]"
  have b: "get True None (exec [AddSection album2, Put (mk_item 1 album2) True None] (u_init 500)
             :: unit ProcessingQueue) = Blocked"
    by (simp add: pq_eval)
  have l: "length (album_events 0 (served ?cs (u_init 500 :: unit ProcessingQueue))) = 2"
    by (simp add: pq_eval)
  have c: "counting 2 = [Some 0, Some 1]" by (simp add: counting_def upt_rec numeral_2_eq_2)
  show ?thesis using ordered_delivery[of 0 ?cs 500] b unfolding l c by blast
qed

subsection \<open>What the consumer sees\<close>

lemma returned_served:
  assumes "pq_inv s"
  shows "returned cs s = map (\<lambda>e. snd (ev_item e)) (served cs s)"
  using assms
proof (induction cs arbitrary: s)
  case Nil
  then show ?case by simp
next
  case (Cons c cs)
  have inv': "pq_inv (snd (step c s))" by (rule pq_inv_step[OF Cons.prems])
  have sh: "pq_shape s" using Cons.prems by (simp add: pq_inv_def)
  note IH = Cons.IH[OF inv']
  show ?case
  proof (cases c)
    case (Get block timeout)
    show ?thesis
    proof (cases "get block timeout s")
      case (Returned r)
      obtain p s' where r: "r = (p, s')" by (cases r)
      from u_get_Returned[OF get_Returned_u_get[OF Returned[unfolded r]] sh]
      obtain a as sec secs item q' where q: "queues s = a # as" and secs: "sections s = sec # secs"
        and g: "subqueue_get (store s a) = Returned (item, q')" and p: "p = snd item" by blast
      have fi: "front_item s = Some (a, sec, item)" by (rule front_item_get[OF sh q secs g])
      show ?thesis using IH Get Returned r fi p by (simp add: ev_item_def)
    qed (use IH Get in simp_all)
  qed (use IH in \<open>auto split: outcome.splits\<close>)
qed

text \<open>
  Claim C9. A \<^verbatim>\<open>get\<close> that returns hands over the second component of the tuple that the
  current sub-queue's \<^verbatim>\<open>_get\<close> gave it, and nothing of the first. Over a whole history,
  what the consumer receives is the list of the payloads of the items served, in the order
  of delivery.
\<close>

theorem get_returns_payload_only:
  "(get block timeout s = Returned (p, s') \<longrightarrow>
      (\<exists>a item q'. current_queue s = Some a \<and> subqueue_get (store s a) = Returned (item, q') \<and>
                    p = snd item)) \<and>
   returned cs (u_init m) = map (\<lambda>e. snd (ev_item e)) (served cs (u_init m))"
proof -
  have tr: "returned cs (u_init m) = map (\<lambda>e. snd (ev_item e)) (served cs (u_init m))"
    by (rule returned_served[OF pq_inv_init])
  have "\<exists>a item q'. current_queue s = Some a \<and> subqueue_get (store s a) = Returned (item, q') \<and> p = snd item"
    if "get block timeout s = Returned (p, s')"
    using get_Returned_u_get[OF that]
    by (auto simp: u_get_def Let_def split: option.splits outcome.splits if_splits sum.splits)
  then show ?thesis using tr by blast
qed

theorem get_returns_payload_only_witness:
  "get True None (exec [AddSection movie1, Put (mk_item 7 movie1) True None] (u_init 500))
     = Returned (Some \<lparr> psection = movie1, body = () \<rparr>,
                 exec [AddSection movie1, Put (mk_item 7 movie1) True None, Get True None] (u_init 500)) \<and>
   (\<exists>a item q'. current_queue (exec [AddSection movie1, Put (mk_item 7 movie1) True None] (u_init 500)) = Some a \<and>
      subqueue_get (store (exec [AddSection movie1, Put (mk_item 7 movie1) True None] (u_init 500)) a) = Returned (item, q') \<and>
      Some \<lparr> psection = movie1, body = () \<rparr> = snd item)"
proof -
  let ?s = "exec [AddSection movie1, Put (mk_item 7 movie1) True None] (u_init 500) :: unit ProcessingQueue"
  let ?s' = "exec [AddSection movie1, Put (mk_item 7 movie1) True None, Get True None] (u_init 500) :: unit ProcessingQueue"
  have g: "get True None ?s = Returned (Some \<lparr> psection = movie1, body = () \<rparr>, ?s')"
    by (simp add: pq_eval)
  from get_returns_payload_only[of True None ?s "Some \<lparr> psection = movie1, body = () \<rparr>" ?s'] g
  show ?thesis by blast
qed


subsection \<open>The capacity bound of \<^verbatim>\<open>put\<close>\<close>





subsection \<open>Items of sections that are not registered\<close>




subsection \<open>Advancing to the next section\<close>

lemma subqueue_get_mem:
  "subqueue_get q = Returned (item, q') \<Longrightarrow> item \<in> set (subqueue_items q)"
  using subqueue_get_Returned[of q item q'] by auto

lemma get_Returned_cases:
  assumes inv: "pq_inv s" and g: "get block timeout s = Returned (p, s')"
  obtains a as sec secs item q' where "queues s = a # as" "sections s = sec # secs"
    "subqueue_get (store s a) = Returned (item, q')" "p = snd item"
    "front_item s = Some (a, sec, item)" "tagged sec item"
    "s' = (if counter s + 1 = number_of_items sec - failed_items sec
           then adv_state s a q' else pop_state s a q')"
proof -
  have sh: "pq_shape s" using inv by (simp add: pq_inv_def)
  from u_get_Returned[OF get_Returned_u_get[OF g] sh]
  obtain a as sec secs item q' where q: "queues s = a # as" and secs: "sections s = sec # secs"
    and sg: "subqueue_get (store s a) = Returned (item, q')" and p: "p = snd item"
    and s': "s' = (if counter s + 1 = number_of_items sec - failed_items sec
                 then adv_state s a q' else pop_state s a q')" by blast
  have fi: "front_item s = Some (a, sec, item)" by (rule front_item_get[OF sh q secs sg])
  have "slot_ok s 0" using inv q by (simp add: pq_inv_def)
  then have "tagged sec item" using subqueue_get_mem[OF sg] q secs by (simp add: slot_ok_def)
  then show ?thesis using that q secs sg p fi s' by blast
qed




subsection \<open>The sentinel\<close>

lemma sentinel_pending_put_sentinel:
  assumes inv: "pq_inv s" and na: "plex_type sec \<noteq> Some PLEX_TYPE_ALBUM"
  shows "sentinel_pending (sec\<lparr> number_of_items := 1, failed_items := 0 \<rparr>) (put_sentinel sec s)"
proof -
  have sh: "pq_shape s" using inv by (simp add: pq_inv_def)
  have c0: "sections s = [] \<longrightarrow> counter s = 0" using sh by (auto simp: pq_shape_def)
  show ?thesis
    using na c0 unfolding put_sentinel_def Let_def u_add_section_eq[OF sh]
    by (simp add: sentinel_pending_def)
qed

lemma last_tl: "tl xs \<noteq> [] \<Longrightarrow> last (tl xs) = last xs"
  by (cases xs) auto

lemma sentinel_pending_step:
  assumes inv: "pq_inv s" and sp: "sections s = [] \<or> sentinel_pending sec s"
    and pg: "is_put_or_get c" and n: "number_of_items sec - failed_items sec = 1"
  shows "sections (snd (step c s)) = [] \<or> sentinel_pending sec (snd (step c s))"
proof (cases c)
  case (Put item block timeout)
  show ?thesis
  proof (cases "put item block timeout s")
    case (Returned s')
    from put_Returned[OF Returned] obtain i s1 where
      up: "u_put item s = Inr (i, s1)" and s': "s' = s1\<lparr> unfinished_tasks := unfinished_tasks s1 + 1 \<rparr>"
      by blast
    from u_put_Inr[OF up] obtain i where
      s1: "s1 = s\<lparr> store := (store s)(queues s ! i := subqueue_put (store s (queues s ! i)) item) \<rparr>"
      by blast
    have "sentinel_pending sec s'" if "sentinel_pending sec s"
      using that by (auto simp: sentinel_pending_def s' s1)
    then show ?thesis using sp Put Returned by (auto simp: s' s1)
  qed (use sp Put in simp_all)
next
  case (Get block timeout)
  show ?thesis
  proof (cases "get block timeout s")
    case (Returned r)
    obtain p s' where r: "r = (p, s')" by (cases r)
    have sh: "pq_shape s" using inv by (simp add: pq_inv_def)
    from get_Returned_cases[OF inv Returned[unfolded r]]
    obtain a as sec0 secs item q' where q: "queues s = a # as" and secs: "sections s = sec0 # secs"
      and s': "s' = (if counter s + 1 = number_of_items sec0 - failed_items sec0
           then adv_state s a q' else pop_state s a q')" by metis
    have pend: "sentinel_pending sec s" using sp secs by simp
    have len: "length secs = length as" and a: "a \<notin> set as"
      using sh q secs by (auto simp: pq_shape_def)
    have "sections s' = [] \<or> sentinel_pending sec s'"
    proof (cases "secs = []")
      case True
      then have "sec0 = sec" "counter s = 0" using pend secs by (auto simp: sentinel_pending_def)
      then have "s' = adv_state s a q'" using s' n by simp
      then show ?thesis using True secs by (simp add: adv_state_def u_switch_queues_def)
    next
      case False
      then have as: "as \<noteq> []" using len by auto
      then have la: "last as \<noteq> a" using a last_in_set by metis
      have "last (sections s) = last secs" "last (queues s) = last as"
        using False as q secs by simp_all
      then show ?thesis using pend False as la q secs len
        by (auto simp: s' sentinel_pending_def adv_state_def pop_state_def u_switch_queues_def)
    qed
    then show ?thesis using Get Returned r by simp
  qed (use sp Get in simp_all)
qed (use pg in simp_all)

lemma sentinel_pending_exec:
  assumes "pq_inv s" and "sections s = [] \<or> sentinel_pending sec s"
    and "list_all is_put_or_get cs" and "number_of_items sec - failed_items sec = 1"
  shows "sections (exec cs s) = [] \<or> sentinel_pending sec (exec cs s)"
  using assms
proof (induction cs arbitrary: s)
  case Nil
  then show ?case by simp
next
  case (Cons c cs)
  have "sections (snd (step c s)) = [] \<or> sentinel_pending sec (snd (step c s))"
    using sentinel_pending_step[OF Cons.prems(1,2) _ Cons.prems(4)] Cons.prems(3) by simp
  from Cons.IH[OF pq_inv_step[OF Cons.prems(1)] this _ Cons.prems(4)] Cons.prems(3)
  show ?case by simp
qed

lemma drained_step:
  assumes "pq_shape s" and "sections s = []" and "is_put_or_get c"
  shows "step c s = ([], s)"
proof (cases c)
  case (Put item block timeout)
  have "u_put item s = Inl TypeError \<or> u_put item s = Inl RuntimeError"
    using assms(2) by (auto simp: u_put_def split: option.splits)
  then have "put item block timeout s \<noteq> Returned s'" for s'
    by (auto simp: put_def Let_def split: option.splits if_splits)
  then show ?thesis using Put by (auto split: outcome.splits)
next
  case (Get block timeout)
  have "u_qsize s = 0" using assms(1,2) by (simp add: pq_shape_def u_qsize_def)
  then have "get block timeout s \<noteq> Returned r" for r
    by (auto simp: get_def split: option.splits if_splits)
  then show ?thesis using Get by (auto split: outcome.splits)
qed (use assms(3) in simp_all)

lemma drained_exec:
  assumes "pq_shape s" and "sections s = []" and "list_all is_put_or_get cs"
  shows "exec cs s = s \<and> served cs s = []"
  using assms by (induction cs) (auto simp: drained_step)

text \<open>
  Claim C4. Let \<^verbatim>\<open>put_sentinel\<close> be called with a section that is not an album (the empty
  \<^verbatim>\<open>Section()\<close> is none) after any history, and let only puts and gets follow, so that
  the sentinel's section is the last one added. Once the sections registered before it
  are drained and it alone is left, the next \<^verbatim>\<open>get()\<close> returns at once, serving the
  sentinel \<^verbatim>\<open>(None, None)\<close>; after that no \<^verbatim>\<open>get\<close> returns any more, whatever is put.
\<close>

theorem sentinel_ends_stream:
  assumes s0: "s0 = exec cs0 (u_init m)"
    and na: "plex_type sec \<noteq> Some PLEX_TYPE_ALBUM"
    and cs1: "list_all is_put_or_get cs1"
    and s2: "s2 = exec cs1 (put_sentinel sec s0)"
    and one: "length (sections s2) = 1"
    and cs2: "list_all is_put_or_get cs2"
  shows "front_item s2 =
           Some (hd (queues s2), sec\<lparr> number_of_items := 1, failed_items := 0 \<rparr>, (None, None)) \<and>
         (\<exists>s3. get True None s2 = Returned (None, s3)) \<and>
         served cs2 (exec [Get True None] s2) = [] \<and>
         (\<forall>r. get block timeout (exec cs2 (exec [Get True None] s2)) \<noteq> Returned r)"
proof -
  let ?sec = "sec\<lparr> number_of_items := 1, failed_items := 0 \<rparr>"
  have inv0: "pq_inv s0" unfolding s0 by (rule reach_inv)
  have inv1: "pq_inv (put_sentinel sec s0)" by (rule pq_inv_put_sentinel[OF inv0])
  have inv2: "pq_inv s2" unfolding s2 by (rule pq_inv_exec[OF inv1])
  have sh2: "pq_shape s2" using inv2 by (simp add: pq_inv_def)
  have "sections s2 = [] \<or> sentinel_pending ?sec s2"
    unfolding s2
    by (rule sentinel_pending_exec[OF inv1 _ cs1]) (simp_all add: sentinel_pending_put_sentinel[OF inv0 na])
  then have pend: "sentinel_pending ?sec s2" using one by auto
  obtain a where q: "queues s2 = [a]" using sh2 one
    by (cases "queues s2") (auto simp: pq_shape_def)
  have secs: "sections s2 = [?sec]" using pend one
    by (cases "sections s2") (auto simp: sentinel_pending_def)
  obtain rest where st: "store s2 a = Fifo ((None, None) # rest)" and c0: "counter s2 = 0"
    using pend q one by (auto simp: sentinel_pending_def)
  have cur: "current_queue s2 = Some a" "current_section s2 = Some ?sec"
    using sh2 q secs by (simp_all add: pq_shape_def)
  have fi: "front_item s2 = Some (hd (queues s2), ?sec, (None, None))"
    using cur st q by (simp add: front_item_def)
  let ?s3 = "adv_state s2 a (Fifo rest)"
  have g: "get True None s2 = Returned (None, ?s3)"
    using cur st c0 secs q
    by (simp add: get_def u_qsize_def u_get_def u_init_next_section_def adv_state_def Let_def)
  have inv3: "pq_inv ?s3" by (rule pq_inv_adv[OF inv2 _, of a "[]" "(None, None)"]) (simp_all add: q st)
  then have sh3: "pq_shape ?s3" by (simp add: pq_inv_def)
  have e3: "sections ?s3 = []" using secs by (simp add: adv_state_def u_switch_queues_def)
  have ex: "exec [Get True None] s2 = ?s3" using g by simp
  from drained_exec[OF sh3 e3 cs2] have d: "exec cs2 ?s3 = ?s3" "served cs2 ?s3 = []" by simp_all
  have "u_qsize ?s3 = 0" using sh3 e3 by (simp add: pq_shape_def u_qsize_def)
  then have "get block timeout ?s3 \<noteq> Returned r" for r
    by (auto simp: get_def split: option.splits if_splits)
  then show ?thesis using fi g ex d by auto
qed


theorem sentinel_ends_stream_witness:
  "plex_type empty_Section \<noteq> Some PLEX_TYPE_ALBUM \<and>
   length (sections (exec [Get True None] (put_sentinel empty_Section
     (exec [AddSection movie1, Put (mk_item 0 movie1) True None] (u_init 500))))) = 1 \<and>
   front_item (exec [Get True None] (put_sentinel empty_Section
     (exec [AddSection movie1, Put (mk_item 0 movie1) True None] (u_init 500))))
     = Some (1, empty_Section\<lparr> number_of_items := 1, failed_items := 0 \<rparr>, (None, None)) \<and>
   (\<exists>s3. get True None (exec [Get True None] (put_sentinel empty_Section
     (exec [AddSection movie1, Put (mk_item 0 movie1) True None] (u_init 500)))) = Returned (None, s3)) \<and>
   served [Put (mk_item 1 movie1) True None, Get False None]
     (exec [Get True None] (exec [Get True None] (put_sentinel empty_Section
       (exec [AddSection movie1, Put (mk_item 0 movie1) True None] (u_init 500))))) = [] \<and>
   (\<forall>r. get False None (exec [Put (mk_item 1 movie1) True None, Get False None]
     (exec [Get True None] (exec [Get True None] (put_sentinel empty_Section
       (exec [AddSection movie1, Put (mk_item 0 movie1) True None] (u_init 500)))))) \<noteq> Returned r)"
proof -
  let ?s0 = "exec [AddSection movie1, Put (mk_item 0 movie1) True None] (u_init 500) :: unit ProcessingQueue"
  let ?s2 = "exec [Get True None] (put_sentinel empty_Section ?s0)"
  have na: "plex_type empty_Section \<noteq> Some PLEX_TYPE_ALBUM" by (simp add: pq_eval)
  have cs1: "list_all is_put_or_get [Get True None :: unit op]" by simp
  have one: "length (sections ?s2) = 1" by (simp add: pq_eval)
  have cs2: "list_all is_put_or_get [Put (mk_item 1 movie1) True None, Get False None]" by simp
  have hd: "hd (queues ?s2) = 1" by (simp add: pq_eval)
  from sentinel_ends_stream[OF refl na cs1 refl one cs2, of False None] na one hd
  show ?thesis by simp
qed

section \<open>Properties of \<^verbatim>\<open>KillableThread\<close>\<close>

lemma should_cancel_step:
  "u_canceled th \<Longrightarrow> u_canceled (thread_step c th)"
  by (cases c)
     (auto simp: cancel_def suspend_def resume_def wait_while_suspended_begin_def
        wait_while_suspended_end_def sleep_begin_def sleep_end_def Let_def
        split: outcome.splits if_splits)

lemma should_cancel_exec:
  "u_canceled th \<Longrightarrow> u_canceled (thread_exec cs th)"
  by (induction cs arbitrary: th) (auto simp: should_cancel_step)

text \<open>
  Claim C7. After \<^verbatim>\<open>cancel\<close>, \<^verbatim>\<open>should_cancel\<close> is true, and stays true through any
  further calls on the thread; both events are set, so that a thread that waits in
  \<^verbatim>\<open>wait_while_suspended\<close> or in \<^verbatim>\<open>sleep\<close> goes on (and \<^verbatim>\<open>wait_while_suspended\<close> returns
  true); and a second \<^verbatim>\<open>cancel\<close> changes nothing.
\<close>

theorem cancel_sticky_idempotent:
  "should_cancel stop_pkc (cancel th) \<and>
   should_cancel stop_pkc (thread_exec cs (cancel th)) \<and>
   u_is_not_suspended (cancel th) \<and> u_is_not_asleep (cancel th) \<and>
   wait_while_suspended_end stop_pkc expired (cancel (wait_while_suspended_begin th))
     = Returned (True, (cancel (wait_while_suspended_begin th))\<lparr> u_suspension_reached := False \<rparr>) \<and>
   sleep_end expired (cancel (sleep_begin th)) = Returned (cancel (sleep_begin th)) \<and>
   cancel (cancel th) = cancel th"
proof -
  have "u_canceled (cancel th)" by (simp add: cancel_def)
  from should_cancel_exec[OF this, of cs] show ?thesis
    by (simp add: should_cancel_def cancel_def wait_while_suspended_end_def sleep_end_def
          wait_while_suspended_begin_def sleep_begin_def)
qed


theorem cancel_sticky_idempotent_witness:
  "should_cancel False (cancel KillableThread_init) \<and>
   should_cancel False (thread_exec [Suspend False None, Resume, SleepBegin, SleepEnd True]
                          (cancel KillableThread_init)) \<and>
   cancel (cancel KillableThread_init) = cancel KillableThread_init"
  using cancel_sticky_idempotent[of False KillableThread_init
          "[Suspend False None, Resume, SleepBegin, SleepEnd True]" False]
  by blast

section \<open>Properties of \<^verbatim>\<open>Tasks\<close>\<close>

text \<open>
  Claim C6 is about \<^verbatim>\<open>Tasks.add\<close>. Its loop removes from the list that it iterates over,
  so the element that follows a removed one is skipped. Here the group holds a cancelled
  task and then a finished one; after \<^verbatim>\<open>add\<close> the finished task is still a member.
\<close>

theorem Tasks_add_keeps_invalid:
  "Tasks_add
     [\<lparr> task_id = 1, priority = Some 0, task_canceled = True, finished = False \<rparr>,
      \<lparr> task_id = 2, priority = Some 1, task_canceled = False, finished = True \<rparr>]
     (One \<lparr> task_id = 3, priority = Some 2, task_canceled = False, finished = False \<rparr>)
   = Inr [\<lparr> task_id = 2, priority = Some 1, task_canceled = False, finished = True \<rparr>,
          \<lparr> task_id = 3, priority = Some 2, task_canceled = False, finished = False \<rparr>] \<and>
   \<not> isValid \<lparr> task_id = 2, priority = Some 1, task_canceled = False, finished = True \<rparr>"
  by (simp add: Tasks_add_def add_loop.simps[of 0] add_loop.simps[of "Suc 0"] isValid_def)

section \<open>Properties of the threaders\<close>

subsection \<open>\<^verbatim>\<open>ThreaderManager.reset\<close>\<close>

lemma length_workers_init:
  "length (workers (BackgroundThreader_init name worker worker_count))
     = nat (case worker_count of None \<Rightarrow> 6 | Some k \<Rightarrow> k)"
  by (simp add: BackgroundThreader_init_def Let_def)

text \<open>
  Claim C10. A \<^verbatim>\<open>reset\<close> of a manager that is not idle makes a threader with 6 workers,
  all of the manager's worker class, whatever number of workers the manager was made with.
\<close>

theorem reset_default_worker_count:
  assumes "\<not> (MPQ_empty (bt_queue (threader tm)) \<and> \<not> hasTask (threader tm))"
  shows "length (workers (threader (reset tm))) = 6 \<and>
         list_all (\<lambda>w. w_class w = u_workerhandler tm) (workers (threader (reset tm))) \<and>
         u_workerhandler (reset tm) = u_workerhandler tm \<and>
         length (workers (threader (ThreaderManager_init (Some c) (Some n)))) = nat n \<and>
         u_workerhandler (ThreaderManager_init (Some c) (Some n)) = c"
  using assms
  by (auto simp: reset_def BackgroundThreader_init_def ThreaderManager_init_def Let_def
        worker_init_def list_all_iff)

lemmas bt_eval = BackgroundThreader_init_def ThreaderManager_init_def reset_def Let_def worker_init_def
  addTask_def u_nextPriority_def MPQ_put_def MPQ_u_put_def comparable_def has_priority_def
  startWorkers_def worker_start_def MPQ_empty_def hasTask_def worker_working_def Task_init_def
  BackgroundThreader_abort_def worker_abort_def MPQ_get_nowait_def MPQ_u_get_def prio_def
  addTasks_def addTasksToFront_def getLowestPrority_def lowest_def serve_def

theorem reset_default_worker_count_witness:
  "\<not> MPQ_empty (bt_queue (threader busy_manager)) \<and>
   length (workers (threader busy_manager)) = 2 \<and>
   length (workers (threader (reset busy_manager))) = 6 \<and>
   list_all (\<lambda>w. w_class w = NonstoppingBackgroundWorker) (workers (threader (reset busy_manager)))"
proof -
  have ne: "\<not> MPQ_empty (bt_queue (threader busy_manager))"
    by (simp add: busy_manager_def bt_eval)
  then have busy: "\<not> (MPQ_empty (bt_queue (threader busy_manager)) \<and> \<not> hasTask (threader busy_manager))"
    by simp
  have two: "length (workers (threader busy_manager)) = 2" by (simp add: busy_manager_def bt_eval)
  have h: "u_workerhandler busy_manager = NonstoppingBackgroundWorker"
    by (simp add: busy_manager_def bt_eval)
  have "length (workers (threader (reset busy_manager))) = 6 \<and>
    list_all (\<lambda>w. w_class w = NonstoppingBackgroundWorker) (workers (threader (reset busy_manager)))"
    using reset_default_worker_count[OF busy] unfolding h by blast
  then show ?thesis using ne two by blast
qed

subsection \<open>Priorities of submitted tasks\<close>

lemma comparable_all: "list_all has_priority q \<Longrightarrow> comparable q"
  by (simp add: comparable_def)

lemma MPQ_put_ok:
  "list_all has_priority q \<Longrightarrow> has_priority t \<Longrightarrow> MPQ_put q t = Inr (q @ [t])"
  by (simp add: MPQ_put_def MPQ_u_put_def comparable_def)

lemma has_priority_set [simp]: "has_priority (t\<lparr> priority := Some p \<rparr>)"
  by (simp add: has_priority_def)

lemma prio_set [simp]: "prio (t\<lparr> priority := Some p \<rparr>) = p"
  by (simp add: prio_def)

lemma renumber_has_priority: "list_all has_priority (renumber p ts)"
  by (induction ts arbitrary: p) auto

lemma renumber_bounds:
  "t \<in> set (renumber p ts) \<Longrightarrow> p \<le> prio t \<and> prio t < p + int (length ts)"
  by (induction ts arbitrary: p) fastforce+

lemma renumber_sorted: "sorted_wrt (<) (map prio (renumber p ts))"
proof (induction ts arbitrary: p)
  case Nil
  then show ?case by simp
next
  case (Cons t ts)
  have "p < prio x" if "x \<in> set (renumber (p + 1) ts)" for x
    using renumber_bounds[OF that] by simp
  then show ?case using Cons by auto
qed

lemma renumber_ids: "map task_id (renumber p ts) = map task_id ts"
  by (induction ts arbitrary: p) auto

lemma length_renumber [simp]: "length (renumber p ts) = length ts"
  by (induction ts arbitrary: p) auto

lemma renumber_snoc: "renumber p (ts @ [t]) = renumber p ts @ [t\<lparr> priority := Some (p + int (length ts)) \<rparr>]"
  by (induction ts arbitrary: p) (auto simp: algebra_simps)

lemma addTasks_loop_ok:
  assumes "list_all has_priority (bt_queue bt)"
  shows "\<exists>bt'. addTasks_loop ts bt = Inr bt' \<and>
           bt_queue bt' = bt_queue bt @ renumber (bt_priority bt + 1) ts \<and>
           bt_priority bt' = bt_priority bt + int (length ts) \<and>
           workers bt' = workers bt"
  using assms
proof (induction ts arbitrary: bt)
  case Nil
  then show ?case by simp
next
  case (Cons t ts)
  let ?bt1 = "bt\<lparr> bt_priority := bt_priority bt + 1,
                  bt_queue := bt_queue bt @ [t\<lparr> priority := Some (bt_priority bt + 1) \<rparr>] \<rparr>"
  have step: "addTasks_loop (t # ts) bt = addTasks_loop ts ?bt1"
    using Cons.prems by (simp add: u_nextPriority_def MPQ_put_ok)
  have "list_all has_priority (bt_queue ?bt1)" using Cons.prems by simp
  from Cons.IH[OF this] show ?case unfolding step by (auto simp: algebra_simps)
qed

lemma addTasksToFront_loop_ok:
  assumes "list_all has_priority (bt_queue bt)"
  shows "\<exists>bt'. addTasksToFront_loop p ts bt = Inr bt' \<and>
           bt_queue bt' = bt_queue bt @ renumber p ts \<and>
           bt_priority bt' = bt_priority bt \<and> workers bt' = workers bt"
  using assms
proof (induction ts arbitrary: bt p)
  case Nil
  then show ?case by simp
next
  case (Cons t ts)
  let ?bt1 = "bt\<lparr> bt_queue := bt_queue bt @ [t\<lparr> priority := Some p \<rparr>] \<rparr>"
  have step: "addTasksToFront_loop p (t # ts) bt = addTasksToFront_loop (p + 1) ts ?bt1"
    using Cons.prems by (simp add: MPQ_put_ok)
  have "list_all has_priority (bt_queue ?bt1)" using Cons.prems by simp
  from Cons.IH[OF this, of "p + 1"] show ?case unfolding step by auto
qed

lemma sort_key_Cons_min:
  assumes "sort_key f q = t # rest"
  shows "t \<in> set q \<and> (\<forall>x \<in> set q. f t \<le> f x) \<and> sorted (map f rest) \<and>
         set rest \<subseteq> set q \<and> length q = Suc (length rest) \<and> (\<forall>x \<in> set rest. f t \<le> f x)"
proof -
  have s: "sorted (map f (t # rest))" using sorted_sort_key[of f q] assms by simp
  have e: "set (t # rest) = set q" using set_sort[of f q] assms by simp
  have l: "length (t # rest) = length q" using length_sort[of f q] assms by simp
  show ?thesis using s e l by auto
qed

lemma lowest_ok:
  assumes "list_all has_priority q" and "q \<noteq> []"
  shows "\<exists>t. lowest q = Some t \<and> t \<in> set q \<and> priority t = Some (prio t) \<and> (\<forall>x \<in> set q. prio t \<le> prio x)"
proof -
  obtain t rest where sk: "sort_key prio q = t # rest"
    using assms(2) length_sort[of prio q] by (cases "sort_key prio q") auto
  have "t \<in> set q" "\<forall>x \<in> set q. prio t \<le> prio x" using sort_key_Cons_min[OF sk] by auto
  moreover have "priority t = Some (prio t)"
    using assms(1) \<open>t \<in> set q\<close> by (auto simp: list_all_iff has_priority_def prio_def)
  moreover have "lowest q = Some t" using assms sk by (simp add: lowest_def comparable_all)
  ultimately show ?thesis by blast
qed

lemma worker_get_ok:
  assumes "list_all has_priority (bt_queue bt)" and "sort_key prio (bt_queue bt) = t # rest"
  shows "bt_step WorkerGet bt = ([t], bt\<lparr> bt_queue := rest \<rparr>)"
proof -
  have "bt_queue bt \<noteq> []" using assms(2) by auto
  then show ?thesis using assms
    by (simp add: MPQ_get_nowait_def MPQ_u_get_def comparable_all)
qed

lemma worker_get_empty:
  assumes "bt_queue bt = []"
  shows "bt_step WorkerGet bt = ([], bt)"
  using assms by (simp add: MPQ_get_nowait_def)

lemma serve_sorted:
  assumes "list_all has_priority (bt_queue bt)"
  shows "serve n bt = take n (sort_key prio (bt_queue bt))"
  using assms
proof (induction n arbitrary: bt)
  case 0
  then show ?case by (simp add: serve_def)
next
  case (Suc n)
  show ?case
  proof (cases "sort_key prio (bt_queue bt)")
    case Nil
    then have "bt_queue bt = []" using length_sort[of prio "bt_queue bt"] by simp
    then have "serve k bt = []" for k
      by (induction k) (simp_all add: serve_def worker_get_empty del: bt_step.simps)
    then show ?thesis using Nil by simp
  next
    case (Cons t rest)
    have all: "list_all has_priority rest"
      using sort_key_Cons_min[OF Cons] Suc.prems by (auto simp: list_all_iff)
    have "sorted (map prio rest)" using sort_key_Cons_min[OF Cons] by simp
    then have id: "sort_key prio rest = rest" by (rule sort_key_id_if_sorted)
    have "serve (Suc n) bt = t # serve n (bt\<lparr> bt_queue := rest \<rparr>)"
      using worker_get_ok[OF Suc.prems Cons] by (simp add: serve_def)
    also have "serve n (bt\<lparr> bt_queue := rest \<rparr>) = take n rest"
      using Suc.IH[of "bt\<lparr> bt_queue := rest \<rparr>"] all id by simp
    finally show ?thesis using Cons by simp
  qed
qed

lemma insort_key_after:
  assumes "\<forall>y \<in> set ys. f y < f x"
  shows "insort_key f x (ys @ zs) = ys @ insort_key f x zs"
  using assms by (induction ys) auto

lemma foldr_insort_front:
  assumes "\<forall>x \<in> set xs. \<forall>y \<in> set ys. f y < f x"
  shows "foldr (insort_key f) xs (ys @ zs) = ys @ foldr (insort_key f) xs zs"
  using assms
proof (induction xs)
  case Nil
  then show ?case by simp
next
  case (Cons x xs)
  then show ?case by (simp add: insort_key_after)
qed

lemma sort_key_front:
  assumes "\<forall>x \<in> set xs. \<forall>y \<in> set ys. f y < f x" and "sorted (map f ys)"
  shows "sort_key f (xs @ ys) = ys @ sort_key f xs"
proof -
  have "sort_key f (xs @ ys) = foldr (insort_key f) xs (sort_key f ys)"
    by (simp add: sort_key_def)
  also have "sort_key f ys = ys @ []" using assms(2) by (simp add: sort_key_id_if_sorted)
  also have "foldr (insort_key f) xs (ys @ []) = ys @ foldr (insort_key f) xs []"
    by (rule foldr_insort_front[OF assms(1)])
  finally show ?thesis by (simp add: sort_key_def)
qed


lemma bt_queue_startWorkers [simp]: "bt_queue (startWorkers bt) = bt_queue bt"
  by (simp add: startWorkers_def)

lemma bt_priority_startWorkers [simp]: "bt_priority (startWorkers bt) = bt_priority bt"
  by (simp add: startWorkers_def)

lemma addTask_ok:
  assumes "list_all has_priority (bt_queue bt)"
  shows "\<exists>bt'. addTask t bt = Inr bt' \<and>
           bt_queue bt' = bt_queue bt @ [t\<lparr> priority := Some (bt_priority bt + 1) \<rparr>] \<and>
           bt_priority bt' = bt_priority bt + 1"
  using assms by (simp add: addTask_def u_nextPriority_def MPQ_put_ok)

lemma addTasks_ok:
  assumes "list_all has_priority (bt_queue bt)"
  shows "\<exists>bt'. addTasks ts bt = Inr bt' \<and>
           bt_queue bt' = bt_queue bt @ renumber (bt_priority bt + 1) ts \<and>
           bt_priority bt' = bt_priority bt + int (length ts)"
proof -
  from addTasks_loop_ok[OF assms, of ts] obtain b where
    "addTasks_loop ts bt = Inr b" "bt_queue b = bt_queue bt @ renumber (bt_priority bt + 1) ts"
    "bt_priority b = bt_priority bt + int (length ts)" by blast
  then show ?thesis by (simp add: addTasks_def)
qed

lemma addTasksToFront_ok:
  assumes all: "list_all has_priority (bt_queue bt)" and ne: "bt_queue bt \<noteq> []"
  shows "\<exists>m bt'. getLowestPrority bt = Some m \<and> (\<exists>t \<in> set (bt_queue bt). prio t = m) \<and>
           (\<forall>t \<in> set (bt_queue bt). m \<le> prio t) \<and>
           addTasksToFront ts bt = Inr bt' \<and>
           bt_queue bt' = bt_queue bt @ renumber (m - int (length ts)) ts \<and>
           bt_priority bt' = bt_priority bt"
proof -
  from lowest_ok[OF all ne] obtain t where t: "lowest (bt_queue bt) = Some t" "t \<in> set (bt_queue bt)"
    "priority t = Some (prio t)" "\<forall>x \<in> set (bt_queue bt). prio t \<le> prio x" by blast
  have g: "getLowestPrority bt = Some (prio t)" using t by (simp add: getLowestPrority_def)
  from addTasksToFront_loop_ok[OF all, of "prio t - int (length ts)" ts] obtain b where
    b: "addTasksToFront_loop (prio t - int (length ts)) ts bt = Inr b"
    "bt_queue b = bt_queue bt @ renumber (prio t - int (length ts)) ts"
    "bt_priority b = bt_priority bt" by blast
  have "addTasksToFront ts bt = Inr (startWorkers b)" using g b by (simp add: addTasksToFront_def)
  then show ?thesis using g t b by auto
qed

lemma has_priority_step:
  assumes "list_all has_priority (bt_queue bt)"
  shows "list_all has_priority (bt_queue (snd (bt_step c bt)))"
proof (cases c)
  case (AddTask t)
  from addTask_ok[OF assms, of t] show ?thesis using AddTask assms by auto
next
  case (AddTasks ts)
  from addTasks_ok[OF assms, of ts] show ?thesis using AddTasks assms renumber_has_priority by auto
next
  case (AddTasksToFront ts)
  show ?thesis
  proof (cases "bt_queue bt = []")
    case True
    then have "getLowestPrority bt = None" by (simp add: getLowestPrority_def lowest_def)
    then have "addTasksToFront ts bt = addTasks ts bt" by (simp add: addTasksToFront_def)
    with addTasks_ok[OF assms, of ts] show ?thesis
      using AddTasksToFront assms renumber_has_priority by auto
  next
    case False
    from addTasksToFront_ok[OF assms False, of ts] show ?thesis
      using AddTasksToFront assms renumber_has_priority by auto
  qed
next
  case WorkerGet
  show ?thesis
  proof (cases "sort_key prio (bt_queue bt)")
    case Nil
    then have "bt_queue bt = []" using length_sort[of prio "bt_queue bt"] by simp
    then show ?thesis using WorkerGet worker_get_empty by simp
  next
    case (Cons t rest)
    have "list_all has_priority rest"
      using sort_key_Cons_min[OF Cons] assms by (auto simp: list_all_iff)
    then show ?thesis using WorkerGet worker_get_ok[OF assms Cons] by simp
  qed
qed

lemma has_priority_exec:
  "list_all has_priority (bt_queue bt) \<Longrightarrow> list_all has_priority (bt_queue (bt_exec cs bt))"
  by (induction cs arbitrary: bt) (auto simp: has_priority_step simp del: bt_step.simps)

lemma has_priority_init:
  "list_all has_priority (bt_queue (BackgroundThreader_init name worker worker_count))"
  by (simp add: BackgroundThreader_init_def Let_def)

lemma served_sorted_from:
  assumes "list_all has_priority (bt_queue bt)"
    and "\<forall>t \<in> set (bt_queue bt). L \<le> prio t \<and> prio t \<le> bt_priority bt"
    and "L \<le> bt_priority bt + 1"
    and "list_all not_to_front cs"
  shows "sorted (map prio (bt_served cs bt)) \<and> (\<forall>t \<in> set (bt_served cs bt). L \<le> prio t)"
  using assms
proof (induction cs arbitrary: bt L)
  case Nil
  then show ?case by simp
next
  case (Cons c cs)
  have rest: "list_all not_to_front cs" using Cons.prems(4) by simp
  show ?case
  proof (cases c)
    case (AddTask t)
    from addTask_ok[OF Cons.prems(1), of t] obtain b where b: "addTask t bt = Inr b"
      "bt_queue b = bt_queue bt @ [t\<lparr> priority := Some (bt_priority bt + 1) \<rparr>]"
      "bt_priority b = bt_priority bt + 1" by blast
    have "sorted (map prio (bt_served cs b)) \<and> (\<forall>t \<in> set (bt_served cs b). L \<le> prio t)"
      using Cons.prems b by (intro Cons.IH rest) auto
    then show ?thesis using AddTask b by simp
  next
    case (AddTasks ts)
    from addTasks_ok[OF Cons.prems(1), of ts] obtain b where b: "addTasks ts bt = Inr b"
      "bt_queue b = bt_queue bt @ renumber (bt_priority bt + 1) ts"
      "bt_priority b = bt_priority bt + int (length ts)" by blast
    have bounds: "L \<le> prio t \<and> prio t \<le> bt_priority b" if "t \<in> set (renumber (bt_priority bt + 1) ts)" for t
      using renumber_bounds[OF that] Cons.prems(3) b(3) by auto
    have "sorted (map prio (bt_served cs b)) \<and> (\<forall>t \<in> set (bt_served cs b). L \<le> prio t)"
    proof (intro Cons.IH rest)
      show "list_all has_priority (bt_queue b)"
        using Cons.prems(1) b(2) renumber_has_priority by simp
      show "\<forall>t \<in> set (bt_queue b). L \<le> prio t \<and> prio t \<le> bt_priority b"
        using Cons.prems(2) b(2,3) bounds by auto
      show "L \<le> bt_priority b + 1" using Cons.prems(3) b(3) by simp
    qed
    then show ?thesis using AddTasks b by simp
  next
    case (AddTasksToFront ts)
    then show ?thesis using Cons.prems(4) by simp
  next
    case WorkerGet
    show ?thesis
    proof (cases "sort_key prio (bt_queue bt)")
      case Nil
      then have "bt_queue bt = []" using length_sort[of prio "bt_queue bt"] by simp
      then have "bt_step WorkerGet bt = ([], bt)" by (rule worker_get_empty)
      then show ?thesis using WorkerGet Cons.IH[OF Cons.prems(1,2,3) rest] by simp
    next
      case inner: (Cons t rst)
      note m = sort_key_Cons_min[OF inner]
      have st: "bt_step WorkerGet bt = ([t], bt\<lparr> bt_queue := rst \<rparr>)"
        by (rule worker_get_ok[OF Cons.prems(1) inner])
      have tq: "t \<in> set (bt_queue bt)" using m by simp
      have "sorted (map prio (bt_served cs (bt\<lparr> bt_queue := rst \<rparr>))) \<and>
            (\<forall>x \<in> set (bt_served cs (bt\<lparr> bt_queue := rst \<rparr>)). prio t \<le> prio x)"
      proof (intro Cons.IH rest)
        show "list_all has_priority (bt_queue (bt\<lparr> bt_queue := rst \<rparr>))"
          using m Cons.prems(1) by (auto simp: list_all_iff)
        show "\<forall>x \<in> set (bt_queue (bt\<lparr> bt_queue := rst \<rparr>)). prio t \<le> prio x \<and> prio x \<le> bt_priority (bt\<lparr> bt_queue := rst \<rparr>)"
          using m Cons.prems(2) by auto
        show "prio t \<le> bt_priority (bt\<lparr> bt_queue := rst \<rparr>) + 1"
          using Cons.prems(2) tq by fastforce
      qed
      moreover have "L \<le> prio t" using Cons.prems(2) tq by auto
      ultimately show ?thesis using WorkerGet st by fastforce
    qed
  qed
qed


lemma renumber_distinct: "distinct (map prio (renumber p ts))"
  using renumber_sorted[of p ts] strict_sorted_iff by blast

lemma distinct_map_insort_key:
  "distinct (map f (insort_key f x xs)) \<longleftrightarrow> f x \<notin> f ` set xs \<and> distinct (map f xs)"
  by (induction xs) (auto simp: set_insort_key)

lemma distinct_map_sort_key: "distinct (map f (sort_key f xs)) \<longleftrightarrow> distinct (map f xs)"
  by (induction xs) (auto simp: distinct_map_insort_key)

lemma distinct_sort_key_tl:
  assumes "sort_key f q = t # rest" and "distinct (map f q)"
  shows "distinct (map f rest)"
proof -
  have "distinct (map f (t # rest))" using assms distinct_map_sort_key[of f q] by simp
  then show ?thesis by simp
qed

lemma fresh_priorities_step:
  assumes "fresh_priorities bt"
  shows "fresh_priorities (snd (bt_step c bt))"
proof -
  have all: "list_all has_priority (bt_queue bt)" and d: "distinct (map prio (bt_queue bt))"
    and le: "\<forall>t \<in> set (bt_queue bt). prio t \<le> bt_priority bt"
    using assms by (auto simp: fresh_priorities_def)
  have all': "list_all has_priority (bt_queue (snd (bt_step c bt)))" by (rule has_priority_step[OF all])
  show ?thesis
  proof (cases c)
    case (AddTask t)
    from addTask_ok[OF all, of t] show ?thesis using AddTask d le all
      by (fastforce simp: fresh_priorities_def)
  next
    case (AddTasks ts)
    from addTasks_ok[OF all, of ts] obtain b where b: "addTasks ts bt = Inr b"
      "bt_queue b = bt_queue bt @ renumber (bt_priority bt + 1) ts"
      "bt_priority b = bt_priority bt + int (length ts)" by blast
    have "prio x \<noteq> prio y" if "x \<in> set (bt_queue bt)" "y \<in> set (renumber (bt_priority bt + 1) ts)" for x y
      using renumber_bounds[OF that(2)] le that(1) by fastforce
    moreover have "prio y \<le> bt_priority b" if "y \<in> set (renumber (bt_priority bt + 1) ts)" for y
      using renumber_bounds[OF that] b(3) by simp
    ultimately show ?thesis using AddTasks b d le all renumber_distinct renumber_has_priority
      by (fastforce simp: fresh_priorities_def)
  next
    case (AddTasksToFront ts)
    show ?thesis
    proof (cases "bt_queue bt = []")
      case True
      then have "getLowestPrority bt = None" by (simp add: getLowestPrority_def lowest_def)
      then have eq: "addTasksToFront ts bt = addTasks ts bt" by (simp add: addTasksToFront_def)
      from addTasks_ok[OF all, of ts] obtain b where b: "addTasks ts bt = Inr b"
        "bt_queue b = bt_queue bt @ renumber (bt_priority bt + 1) ts"
        "bt_priority b = bt_priority bt + int (length ts)" by blast
      have "prio y \<le> bt_priority b" if "y \<in> set (renumber (bt_priority bt + 1) ts)" for y
        using renumber_bounds[OF that] b(3) by simp
      then show ?thesis using AddTasksToFront eq b True renumber_distinct renumber_has_priority
        by (auto simp: fresh_priorities_def)
    next
      case False
      from addTasksToFront_ok[OF all False, of ts] obtain m b where
        m: "\<exists>t \<in> set (bt_queue bt). prio t = m" "\<forall>t \<in> set (bt_queue bt). m \<le> prio t"
        and b: "addTasksToFront ts bt = Inr b" "bt_queue b = bt_queue bt @ renumber (m - int (length ts)) ts"
          "bt_priority b = bt_priority bt" by blast
      have lt: "prio y < m" if "y \<in> set (renumber (m - int (length ts)) ts)" for y
        using renumber_bounds[OF that] by simp
      have "m \<le> bt_priority bt" using m(1) le by auto
      then have "prio y \<le> bt_priority b" if "y \<in> set (renumber (m - int (length ts)) ts)" for y
        using lt[OF that] b(3) by simp
      moreover have "prio x \<noteq> prio y" if "x \<in> set (bt_queue bt)" "y \<in> set (renumber (m - int (length ts)) ts)" for x y
        using lt[OF that(2)] m(2) that(1) by fastforce
      ultimately show ?thesis using AddTasksToFront b d le all renumber_distinct renumber_has_priority
        by (fastforce simp: fresh_priorities_def)
    qed
  next
    case WorkerGet
    show ?thesis
    proof (cases "sort_key prio (bt_queue bt)")
      case Nil
      then have "bt_queue bt = []" using length_sort[of prio "bt_queue bt"] by simp
      then show ?thesis using WorkerGet worker_get_empty assms by simp
    next
      case (Cons t rest)
      have "distinct (map prio rest)" by (rule distinct_sort_key_tl[OF Cons d])
      moreover have "set rest \<subseteq> set (bt_queue bt)" using sort_key_Cons_min[OF Cons] by simp
      ultimately show ?thesis using WorkerGet worker_get_ok[OF all Cons] all' le
        by (auto simp: fresh_priorities_def)
    qed
  qed
qed

lemma fresh_priorities_exec:
  "fresh_priorities bt \<Longrightarrow> fresh_priorities (bt_exec cs bt)"
  by (induction cs arbitrary: bt) (auto simp: fresh_priorities_step simp del: bt_step.simps)

lemma fresh_priorities_init:
  "fresh_priorities (BackgroundThreader_init name worker worker_count)"
  by (simp add: fresh_priorities_def BackgroundThreader_init_def Let_def)

text \<open>
  Claim C5. Let the threader be in any state that calls of \<^verbatim>\<open>addTask\<close>, \<^verbatim>\<open>addTasks\<close>,
  \<^verbatim>\<open>addTasksToFront\<close> and the workers' \<^verbatim>\<open>get_nowait\<close> lead to, with a queue that is not
  empty. Then \<^verbatim>\<open>getLowestPrority\<close> is the least priority \<open>m\<close> in the queue, and
  \<^verbatim>\<open>addTasksToFront\<close> puts the tasks with the priorities \<open>m - len\<close>, ..., \<open>m - 1\<close>: all below
  \<open>m\<close>, rising in the order of submission. The next pops serve these tasks first, in that
  order, and then what would have been served without them. \<^verbatim>\<open>addTask\<close> and \<^verbatim>\<open>addTasks\<close>
  give the priorities that follow the threader's counter, one after the other; and in a
  history of \<^verbatim>\<open>addTask\<close>, \<^verbatim>\<open>addTasks\<close> and pops, the priorities of the tasks served
  never decrease. The tasks in the queue all have priorities, no two of them the same, so
  that the order among tasks of equal priority plays no part.
\<close>

theorem front_tasks_served_first:
  assumes bt: "bt = bt_exec cs (BackgroundThreader_init name worker worker_count)"
    and ne: "bt_queue bt \<noteq> []"
    and cs2: "list_all not_to_front cs2"
  shows "(\<exists>m bt'. getLowestPrority bt = Some m \<and>
            (\<exists>x \<in> set (bt_queue bt). prio x = m) \<and> (\<forall>x \<in> set (bt_queue bt). m \<le> prio x) \<and>
            addTasksToFront ts bt = Inr bt' \<and>
            bt_queue bt' = bt_queue bt @ renumber (m - int (length ts)) ts \<and>
            (\<forall>x \<in> set (renumber (m - int (length ts)) ts). prio x < m) \<and>
            sorted_wrt (<) (map prio (renumber (m - int (length ts)) ts)) \<and>
            map task_id (renumber (m - int (length ts)) ts) = map task_id ts \<and>
            serve n bt' = take n (renumber (m - int (length ts)) ts @ serve (length (bt_queue bt)) bt)) \<and>
         (\<exists>bt'. addTasks ts bt = Inr bt' \<and>
            bt_queue bt' = bt_queue bt @ renumber (bt_priority bt + 1) ts \<and>
            bt_priority bt' = bt_priority bt + int (length ts)) \<and>
         (\<exists>bt'. addTask t bt = Inr bt' \<and>
            bt_queue bt' = bt_queue bt @ [t\<lparr> priority := Some (bt_priority bt + 1) \<rparr>] \<and>
            bt_priority bt' = bt_priority bt + 1) \<and>
         sorted (map prio (bt_served cs2 (BackgroundThreader_init name2 worker2 worker_count2))) \<and>
         list_all has_priority (bt_queue bt) \<and> distinct (map prio (bt_queue bt))"
proof -
  have fresh: "fresh_priorities bt"
    unfolding bt by (rule fresh_priorities_exec[OF fresh_priorities_init])
  then have all: "list_all has_priority (bt_queue bt)" and dist: "distinct (map prio (bt_queue bt))"
    by (simp_all add: fresh_priorities_def)
  from addTasksToFront_ok[OF all ne, of ts] obtain m b where
    m: "getLowestPrority bt = Some m" "\<exists>x \<in> set (bt_queue bt). prio x = m"
       "\<forall>x \<in> set (bt_queue bt). m \<le> prio x"
    and b: "addTasksToFront ts bt = Inr b" "bt_queue b = bt_queue bt @ renumber (m - int (length ts)) ts"
    by blast
  let ?new = "renumber (m - int (length ts)) ts"
  have below: "\<forall>x \<in> set ?new. prio x < m"
    using renumber_bounds[of _ "m - int (length ts)" ts] by auto
  have strict: "sorted_wrt (<) (map prio ?new)" by (rule renumber_sorted)
  then have srt: "sorted (map prio ?new)"
    by (rule sorted_wrt_mono_rel[rotated]) simp
  have allb: "list_all has_priority (bt_queue b)" using all b(2) renumber_has_priority by simp
  have cross: "\<forall>x \<in> set (bt_queue bt). \<forall>y \<in> set ?new. prio y < prio x"
    using below m(3) by fastforce
  have "serve n b = take n (sort_key prio (bt_queue bt @ ?new))"
    using serve_sorted[OF allb] b(2) by simp
  also have "sort_key prio (bt_queue bt @ ?new) = ?new @ sort_key prio (bt_queue bt)"
    by (rule sort_key_front[OF cross srt])
  also have "sort_key prio (bt_queue bt) = serve (length (bt_queue bt)) bt"
    using serve_sorted[OF all, of "length (bt_queue bt)"] by simp
  finally have sv: "serve n b = take n (?new @ serve (length (bt_queue bt)) bt)" .
  have front: "\<exists>m bt'. getLowestPrority bt = Some m \<and>
            (\<exists>x \<in> set (bt_queue bt). prio x = m) \<and> (\<forall>x \<in> set (bt_queue bt). m \<le> prio x) \<and>
            addTasksToFront ts bt = Inr bt' \<and>
            bt_queue bt' = bt_queue bt @ renumber (m - int (length ts)) ts \<and>
            (\<forall>x \<in> set (renumber (m - int (length ts)) ts). prio x < m) \<and>
            sorted_wrt (<) (map prio (renumber (m - int (length ts)) ts)) \<and>
            map task_id (renumber (m - int (length ts)) ts) = map task_id ts \<and>
            serve n bt' = take n (renumber (m - int (length ts)) ts @ serve (length (bt_queue bt)) bt)"
    using m b below strict sv renumber_ids by blast
  let ?init = "BackgroundThreader_init name2 worker2 worker_count2"
  have "sorted (map prio (bt_served cs2 ?init))"
    using served_sorted_from[of ?init 0 cs2] cs2
    by (simp add: BackgroundThreader_init_def Let_def)
  then show ?thesis using front addTasks_ok[OF all, of ts] addTask_ok[OF all, of t] all dist
    by blast
qed


theorem front_tasks_served_first_witness:
  "bt_queue (bt_exec [AddTask (Task_init 1), AddTask (Task_init 2)]
              (BackgroundThreader_init None None None)) \<noteq> [] \<and>
   getLowestPrority (bt_exec [AddTask (Task_init 1), AddTask (Task_init 2)]
              (BackgroundThreader_init None None None)) = Some 0 \<and>
   map task_id (serve 4 (keep (BackgroundThreader_init None None None)
      (addTasksToFront [Task_init 3, Task_init 4]
         (bt_exec [AddTask (Task_init 1), AddTask (Task_init 2)]
            (BackgroundThreader_init None None None))))) = [3, 4, 1, 2] \<and>
   map prio (serve 4 (keep (BackgroundThreader_init None None None)
      (addTasksToFront [Task_init 3, Task_init 4]
         (bt_exec [AddTask (Task_init 1), AddTask (Task_init 2)]
            (BackgroundThreader_init None None None))))) = [- 2, - 1, 0, 1] \<and>
   map task_id (bt_served [AddTask (Task_init 1), AddTasks [Task_init 2, Task_init 3], WorkerGet,
       AddTask (Task_init 4), WorkerGet, WorkerGet] (BackgroundThreader_init None None None))
     = [1, 2, 3] \<and>
   sorted (map prio (bt_served [AddTask (Task_init 1), AddTasks [Task_init 2, Task_init 3], WorkerGet,
       AddTask (Task_init 4), WorkerGet, WorkerGet] (BackgroundThreader_init None None None)))"
proof -
  let ?init = "BackgroundThreader_init None None None"
  let ?bt = "bt_exec [AddTask (Task_init 1), AddTask (Task_init 2)] ?init"
  let ?cs2 = "[AddTask (Task_init 1), AddTasks [Task_init 2, Task_init 3], WorkerGet,
       AddTask (Task_init 4), WorkerGet, WorkerGet]"
  have ne: "bt_queue ?bt \<noteq> []" by (simp add: bt_eval)
  have cs2: "list_all not_to_front ?cs2" by simp
  have low: "getLowestPrority ?bt = Some 0" by (simp add: bt_eval)
  have ids: "map task_id (serve 4 (keep ?init (addTasksToFront [Task_init 3, Task_init 4] ?bt))) = [3, 4, 1, 2]"
    by (simp add: bt_eval eval_nat_numeral)
  have prios: "map prio (serve 4 (keep ?init (addTasksToFront [Task_init 3, Task_init 4] ?bt))) = [- 2, - 1, 0, 1]"
    by (simp add: bt_eval eval_nat_numeral)
  have ids2: "map task_id (bt_served ?cs2 ?init) = [1, 2, 3]" by (simp add: bt_eval)
  have "sorted (map prio (bt_served ?cs2 ?init))"
    using front_tasks_served_first[OF refl ne cs2] by blast
  then show ?thesis using ne low ids prios ids2 by blast
qed

end
